theory Spec2Isabelle
  imports Main "HOL-Library.Sublist"
begin

section \<open>Python strings\<close>

text \<open>
  A Python \<open>str\<close> is a sequence of Unicode code points.  A code point is modelled as a
  natural number and a string as a list of them, so that the em dash (U+2014) and the middle
  dot (U+00B7) used by the scripts are single characters, as they are for Python.
  ASCII literals are written with \<open>u\<close>.
\<close>

type_synonym ustr = "nat list"

definition u :: "string \<Rightarrow> ustr" where
  "u s = map of_char s"

text \<open>\<open>str.isspace\<close> for one character: the code points CPython treats as whitespace;
  \<open>str.strip()\<close> and the regular-expression class \<open>\s\<close> use the same set.\<close>

definition is_space :: "nat \<Rightarrow> bool" where
  "is_space c \<longleftrightarrow>
     (9 \<le> c \<and> c \<le> 13) \<or> (28 \<le> c \<and> c \<le> 32) \<or> c = 133 \<or> c = 160 \<or> c = 5760 \<or>
     (8192 \<le> c \<and> c \<le> 8202) \<or> c = 8232 \<or> c = 8233 \<or> c = 8239 \<or> c = 8287 \<or> c = 12288"

definition lstrip_by :: "(nat \<Rightarrow> bool) \<Rightarrow> ustr \<Rightarrow> ustr" where
  "lstrip_by P s = dropWhile P s"

definition rstrip_by :: "(nat \<Rightarrow> bool) \<Rightarrow> ustr \<Rightarrow> ustr" where
  "rstrip_by P s = rev (dropWhile P (rev s))"

definition strip_by :: "(nat \<Rightarrow> bool) \<Rightarrow> ustr \<Rightarrow> ustr" where
  "strip_by P s = rstrip_by P (lstrip_by P s)"

text \<open>\<open>s.strip()\<close>, \<open>s.strip(chars)\<close> and \<open>s.rstrip(chars)\<close>.\<close>

definition py_strip :: "ustr \<Rightarrow> ustr" where
  "py_strip s = strip_by is_space s"

definition py_strip_chars :: "ustr \<Rightarrow> ustr \<Rightarrow> ustr" where
  "py_strip_chars cs s = strip_by (\<lambda>c. c \<in> set cs) s"

definition py_rstrip_chars :: "ustr \<Rightarrow> ustr \<Rightarrow> ustr" where
  "py_rstrip_chars cs s = rstrip_by (\<lambda>c. c \<in> set cs) s"

text \<open>\<open>s.startswith(p)\<close> is \<^const>\<open>prefix\<close> and \<open>p in s\<close> is \<^const>\<open>sublist\<close>.\<close>

definition startswith :: "ustr \<Rightarrow> ustr \<Rightarrow> bool" where
  "startswith s p = prefix p s"

definition py_in :: "ustr \<Rightarrow> ustr \<Rightarrow> bool" where
  "py_in p s = sublist p s"

text \<open>\<open>s.split(sep)\<close> for a one-character separator: never an empty list.\<close>

fun py_split :: "nat \<Rightarrow> ustr \<Rightarrow> ustr list" where
  "py_split d [] = [[]]"
| "py_split d (c # cs) =
     (if c = d then [] # py_split d cs
      else (case py_split d cs of [] \<Rightarrow> [[c]] | x # xs \<Rightarrow> (c # x) # xs))"

text \<open>\<open>sep.join(parts)\<close>.\<close>

fun py_join :: "ustr \<Rightarrow> ustr list \<Rightarrow> ustr" where
  "py_join sep [] = []"
| "py_join sep [x] = x"
| "py_join sep (x # y # ys) = x @ sep @ py_join sep (y # ys)"

text \<open>\<open>s.replace(old, new)\<close>: non-overlapping occurrences, leftmost first.  For an empty
  \<open>old\<close> Python puts \<open>new\<close> before every character and at the end.\<close>

function py_replace :: "ustr \<Rightarrow> ustr \<Rightarrow> ustr \<Rightarrow> ustr" where
  "py_replace old new s =
     (if old = [] then new @ concat (map (\<lambda>c. c # new) s)
      else if s = [] then []
      else if prefix old s then new @ py_replace old new (drop (length old) s)
      else hd s # py_replace old new (tl s))"
  by pat_completeness auto
termination
  by (relation "measure (\<lambda>(old, new, s). length s)") auto

declare py_replace.simps [simp del]

section \<open>Column roles\<close>

text \<open>
  The dictionary returned by \<open>headers_to_mapping\<close> has one of two shapes: integer keys with
  field names as values, or the single key \<open>"merge"\<close> with a list of column indices.
  The renderer tests a field name against \<open>None\<close>, so the value is an option.
\<close>

datatype mapping = Fields "(nat \<times> ustr option) list" | Merge "nat list"

text \<open>
  \<open>str.lower\<close> follows the Unicode case tables of the Python runtime, which are not part of
  the repository; the classifier takes it as the parameter \<open>lower\<close>.  \<open>ascii_lower\<close> is what
  it does on ASCII text.
\<close>

definition ascii_lower :: "ustr \<Rightarrow> ustr" where
  "ascii_lower s = map (\<lambda>c. if 65 \<le> c \<and> c \<le> 90 then c + 32 else c) s"

definition any_in :: "ustr list \<Rightarrow> ustr \<Rightarrow> bool" where
  "any_in xs h = list_ex (\<lambda>x. py_in x h) xs"

definition headers_to_mapping :: "(ustr \<Rightarrow> ustr) \<Rightarrow> ustr list \<Rightarrow> mapping" where
  "headers_to_mapping lower headers =
    (let h = map (\<lambda>col. py_strip (lower col)) headers;
         n = length h
     in if n = 2 then Fields [(1, Some (u ''description''))]
        else if n = 3 then
          (let h1 = h ! 1; h2 = h ! 2
           in if any_in [u ''type''] h1 then
                Fields [(1, Some (u ''type'')), (2, Some (u ''description''))]
              else if any_in [u ''default''] h2 then
                Fields [(1, Some (u ''description'')), (2, Some (u ''default''))]
              else if any_in [u ''method'', u ''binding'', u ''protocol'', u ''format'',
                              u ''strategy'', u ''returns''] h1 then
                Fields [(1, Some (u ''type'')), (2, Some (u ''description''))]
              else Merge [1 ..< n])
        else if n = 4 then
          (let h1 = h ! 1; h2 = h ! 2; h3 = h ! 3
           in if any_in [u ''type''] h1 \<and> any_in [u ''default''] h3 then
                Fields [(1, Some (u ''type'')), (2, Some (u ''description'')),
                        (3, Some (u ''default''))]
              else if any_in [u ''default''] h3 then
                Fields [(1, Some (u ''description'')), (2, Some (u ''type'')),
                        (3, Some (u ''default''))]
              else if any_in [u ''type''] h1 then
                Fields [(1, Some (u ''type'')), (2, Some (u ''description'')),
                        (3, Some (u ''default''))]
              else Merge [1 ..< n])
        else Merge [1 ..< n])"


section \<open>Splitting a document into lines\<close>

text \<open>
  \<open>Path.read_text\<close> opens the file in text mode with universal newlines: every
  \<open>\r\n\<close> and every lone \<open>\r\<close> of the file is handed to the program as \<open>\n\<close>.
  A file is modelled by its decoded text; decoding errors and the directory walk of
  \<open>main\<close> are outside the model.
\<close>

fun read_text :: "ustr \<Rightarrow> ustr" where
  "read_text [] = []"
| "read_text (c # cs) =
     (if c = 13 then
        (case cs of [] \<Rightarrow> [10] | d # ds \<Rightarrow> if d = 10 then 10 # read_text ds else 10 # read_text cs)
      else c # read_text cs)"

text \<open>The line boundaries of \<open>str.splitlines\<close>.\<close>

definition is_linebreak :: "nat \<Rightarrow> bool" where
  "is_linebreak c \<longleftrightarrow> c \<in> {10, 11, 12, 13, 28, 29, 30, 133, 8232, 8233}"

text \<open>\<open>s.splitlines(keepends=True)\<close>: every line keeps its terminator, \<open>\r\n\<close> is one
  terminator, and there is no empty last line.\<close>

fun splitlines :: "ustr \<Rightarrow> ustr list" where
  "splitlines [] = []"
| "splitlines (c # cs) =
     (if is_linebreak c then
        (case cs of [] \<Rightarrow> [[c]]
         | d # ds \<Rightarrow> if c = 13 \<and> d = 10 then [c, d] # splitlines ds else [c] # splitlines cs)
      else (case splitlines cs of [] \<Rightarrow> [[c]] | l # ls \<Rightarrow> (c # l) # ls))"

section \<open>The table parser\<close>

text \<open>
  The separator test \<open>re.match(r"^\|[-| :]+\|?\s*$", line)\<close>.  The class \<open>[-| :]\<close> holds the
  pipe itself, so the optional pipe adds nothing, and \<open>\s*$\<close> accepts exactly a tail of
  whitespace; the greedy run of class characters can be taken maximal because a space is
  also whitespace.  \<open>sep_line_iff\<close> below states the language of the expression.
\<close>

definition sep_char :: "nat \<Rightarrow> bool" where
  "sep_char c \<longleftrightarrow> c = 45 \<or> c = 124 \<or> c = 32 \<or> c = 58"

definition sep_line :: "ustr \<Rightarrow> bool" where
  "sep_line line =
     (case line of [] \<Rightarrow> False
      | c # rest \<Rightarrow> c = 124 \<and> takeWhile sep_char rest \<noteq> [] \<and>
                    list_all is_space (dropWhile sep_char rest))"

definition split_row :: "ustr \<Rightarrow> ustr list" where
  "split_row line = map py_strip (py_split 124 (py_strip_chars [124] (py_strip line)))"

definition parse_table :: "ustr list \<Rightarrow> (ustr list \<times> ustr list list) option" where
  "parse_table lines =
     (if length lines < 3 then None
      else if \<not> sep_line (lines ! 1) then None
      else Some (split_row (lines ! 0),
                 map split_row (filter (\<lambda>l. startswith (py_strip l) [124]) (drop 2 lines))))"

section \<open>Keys and values\<close>

text \<open>
  \<open>re.sub(d + r"(.+?)" + d, r"\1", s)\<close> for a literal delimiter \<open>d\<close>: the bold marker
  \<open>**\<close> or the backtick.  \<open>lazy_star d s\<close> is the lazy \<open>(.*?)\<close> followed by \<open>d\<close>: the
  shortest run of characters other than the newline after which \<open>d\<close> stands, with the
  text after \<open>d\<close>; \<open>lazy_plus\<close> is \<open>(.+?)\<close>, which takes one character first.
\<close>

fun lazy_star :: "ustr \<Rightarrow> ustr \<Rightarrow> (ustr \<times> ustr) option" where
  "lazy_star d [] = (if d = [] then Some ([], []) else None)"
| "lazy_star d (c # cs) =
     (if prefix d (c # cs) then Some ([], drop (length d) (c # cs))
      else if c = 10 then None
      else (case lazy_star d cs of None \<Rightarrow> None | Some (g, r) \<Rightarrow> Some (c # g, r)))"

definition lazy_plus :: "ustr \<Rightarrow> ustr \<Rightarrow> (ustr \<times> ustr) option" where
  "lazy_plus d s =
     (case s of [] \<Rightarrow> None
      | c # cs \<Rightarrow> if c = 10 then None
                  else (case lazy_star d cs of None \<Rightarrow> None | Some (g, r) \<Rightarrow> Some (c # g, r)))"

lemma lazy_star_length: "lazy_star d s = Some (g, r) \<Longrightarrow> length r \<le> length s"
  by (induction s arbitrary: g r) (auto split: if_splits option.splits)

lemma lazy_plus_length: "lazy_plus d s = Some (g, r) \<Longrightarrow> length r < length s"
  by (auto simp: lazy_plus_def split: list.splits if_splits option.splits
        dest: lazy_star_length)

function unwrap :: "ustr \<Rightarrow> ustr \<Rightarrow> ustr" where
  "unwrap d s =
     (if s = [] then []
      else if prefix d s then
        (case lazy_plus d (drop (length d) s) of
           Some (g, r) \<Rightarrow> g @ unwrap d r
         | None \<Rightarrow> hd s # unwrap d (tl s))
      else hd s # unwrap d (tl s))"
  by pat_completeness auto
termination
  by (relation "measure (\<lambda>(d, s). length s)") (auto dest: lazy_plus_length)

declare unwrap.simps [simp del]

definition to_jsx_key :: "ustr \<Rightarrow> ustr" where
  "to_jsx_key s0 =
     (let s1 = py_strip s0;
          s2 = unwrap (u ''**'') s1;
          s3 = unwrap [96] s2;
          s4 = py_replace [34] [92, 34] s3
      in [34] @ s4 @ [34])"

definition to_jsx_string :: "ustr \<Rightarrow> ustr" where
  "to_jsx_string s0 =
     (let s1 = py_strip s0;
          s2 = unwrap (u ''**'') s1
      in if py_in [96] s2 \<or> py_in (u ''<'') s2 \<or> py_in (u ''>'') s2 \<or> py_in (u ''{'') s2 then
           (let s_escaped = py_replace (u ''$'') [92, 36]
                              (py_replace [96] [92, 96] (py_replace [92] [92, 92] s2))
            in [123, 96] @ s_escaped @ [96, 125])
         else
           (let s_escaped = py_replace [34] (u ''&quot;'') s2
            in [34] @ s_escaped @ [34]))"

section \<open>Rows and tables\<close>

text \<open>The em dash (U+2014) and the hyphen, alone in a cell, stand for an empty cell.\<close>

definition blank_value :: "ustr \<Rightarrow> bool" where
  "blank_value v \<longleftrightarrow> v = [] \<or> v \<in> set [[8212], u ''-'']"

text \<open>
  \<open>row_to_type_node\<close>.  The optional argument \<open>headers\<close> is a list here: \<open>None\<close> and the
  empty list are both false in the test \<open>headers and col_idx < len(headers)\<close>.
  \<open>merge_parts\<close> and \<open>field_props\<close> are the two loops that fill \<open>parts\<close> and \<open>props\<close>.
\<close>

definition merge_parts :: "ustr list \<Rightarrow> ustr list \<Rightarrow> nat list \<Rightarrow> ustr list" where
  "merge_parts row headers cols =
     concat (map (\<lambda>col_idx.
       if col_idx < length row then
         (let val = py_strip (row ! col_idx)
          in if \<not> blank_value val then
               (if headers \<noteq> [] \<and> col_idx < length headers then
                  [py_strip (headers ! col_idx) @ u '': '' @ val]
                else [val])
             else [])
       else []) cols)"

definition field_props :: "ustr list \<Rightarrow> (nat \<times> ustr option) list \<Rightarrow> ustr list" where
  "field_props row fs =
     concat (map (\<lambda>(col_idx, field_name).
       (case field_name of None \<Rightarrow> []
        | Some name \<Rightarrow>
            if col_idx \<ge> length row then []
            else (let val = py_strip (row ! col_idx)
                  in if blank_value val then []
                     else [u ''      '' @ name @ u '': '' @ to_jsx_string val @ u '',''])))
       (sort_key fst fs))"

definition row_props :: "ustr list \<Rightarrow> mapping \<Rightarrow> ustr list \<Rightarrow> ustr list" where
  "row_props row mapping headers =
     (case mapping of
        Merge cols \<Rightarrow>
          (let parts = merge_parts row headers cols
           in if parts \<noteq> [] then
                [u ''      description: '' @ to_jsx_string (py_join [32, 183, 32] parts) @ u '','']
              else [])
      | Fields fs \<Rightarrow> field_props row fs)"

definition row_to_type_node :: "ustr \<Rightarrow> ustr list \<Rightarrow> mapping \<Rightarrow> ustr list \<Rightarrow> ustr" where
  "row_to_type_node key row mapping headers =
     (let props = row_props row mapping headers;
          key_str = to_jsx_key key
      in if props = [] then u ''    '' @ key_str @ u '': {},'' @ [10]
         else u ''    '' @ key_str @ u '': {'' @ [10] @ py_join [10] props @ [10] @ u ''    },'' @ [10])"

definition table_entries :: "ustr list \<Rightarrow> mapping \<Rightarrow> ustr list list \<Rightarrow> ustr list" where
  "table_entries headers mapping rows =
     concat (map (\<lambda>row.
       if row = [] \<or> row ! 0 = [] then []
       else [row_to_type_node (py_strip (row ! 0)) row mapping headers]) rows)"

definition table_to_type_table :: "(ustr \<Rightarrow> ustr) \<Rightarrow> ustr list \<Rightarrow> ustr list list \<Rightarrow> ustr" where
  "table_to_type_table lower headers rows =
     (let mapping = headers_to_mapping lower headers;
          entries = table_entries headers mapping rows;
          inner = concat entries
      in u ''<TypeTable'' @ [10] @ u ''  type={'' @ [10] @ inner @ u ''  }'' @ [10] @ u ''/>'')"


section \<open>The table locator\<close>

text \<open>
  \<open>find_table_blocks\<close> is two nested \<open>while\<close> loops over an index.  \<open>skip_rows\<close> is the inner
  loop, \<open>find_blocks_from\<close> the outer one with the list \<open>blocks\<close> built so far.
\<close>

function skip_rows :: "ustr list \<Rightarrow> nat \<Rightarrow> nat" where
  "skip_rows lines i =
     (if i < length lines \<and> startswith (lines ! i) [124] then skip_rows lines (Suc i) else i)"
  by pat_completeness auto
termination
  by (relation "measure (\<lambda>(lines, i). length lines - i)") auto

declare skip_rows.simps [simp del]

lemma skip_rows_bounds: "i \<le> skip_rows lines i \<and> (i \<le> length lines \<longrightarrow> skip_rows lines i \<le> length lines)"
proof (induction lines i rule: skip_rows.induct)
  case (1 lines i)
  show ?case
  proof (cases "i < length lines \<and> startswith (lines ! i) [124]")
    case True
    with 1 show ?thesis by (subst (1 2) skip_rows.simps) auto
  next
    case False
    then show ?thesis by (subst (1 2) skip_rows.simps) auto
  qed
qed

lemma skip_rows_advances:
  "i < length lines \<Longrightarrow> startswith (lines ! i) [124] \<Longrightarrow> i < skip_rows lines i"
  using skip_rows_bounds[of "Suc i" lines] by (subst skip_rows.simps) auto

function find_blocks_from :: "ustr list \<Rightarrow> nat \<Rightarrow> (nat \<times> nat) list \<Rightarrow> (nat \<times> nat) list" where
  "find_blocks_from lines i blocks =
     (if i < length lines then
        (if startswith (lines ! i) [124] then
           (let start = i; j = skip_rows lines i
            in find_blocks_from lines j (blocks @ [(start, j)]))
         else find_blocks_from lines (i + 1) blocks)
      else blocks)"
  by pat_completeness auto
termination
proof (relation "measure (\<lambda>(lines, i, blocks). length lines - i)", goal_cases)
  case 1
  show ?case by simp
next
  case (2 lines i blocks x xa)
  then show ?case
    using skip_rows_advances[of i lines] skip_rows_bounds[of i lines] by auto
next
  case (3 lines i blocks)
  then show ?case by auto
qed

declare find_blocks_from.simps [simp del]

definition find_table_blocks :: "ustr list \<Rightarrow> (nat \<times> nat) list" where
  "find_table_blocks lines = find_blocks_from lines 0 []"

section \<open>The document rewriter\<close>

definition IMPORT_LINE :: ustr where
  "IMPORT_LINE = u ''import { TypeTable } from '' @ [39] @ u ''fumadocs-ui/components/type-table'' @
     [39] @ u '';'' @ [10]"

text \<open>
  One round of the loop over the reversed blocks: the state is the list \<open>lines\<close> and the flag
  \<open>modified\<close>.  The slice \<open>lines[start:end]\<close> is read from the current list and assigned
  the single new element.
\<close>

definition replace_block ::
  "(ustr \<Rightarrow> ustr) \<Rightarrow> nat \<times> nat \<Rightarrow> ustr list \<times> bool \<Rightarrow> ustr list \<times> bool" where
  "replace_block lower block st =
     (case (block, st) of ((start, end'), (lines, modified)) \<Rightarrow>
        (let table_lines = map (py_rstrip_chars [10]) (drop start (take end' lines))
         in case parse_table table_lines of
              None \<Rightarrow> (lines, modified)
            | Some (headers, rows) \<Rightarrow>
                if rows = [] then (lines, modified)
                else (let jsx = table_to_type_table lower headers rows @ [10]
                      in (take start lines @ [jsx] @ drop end' lines, True))))"

text \<open>The first insertion loop: after the first line that imports from fumadocs.\<close>

definition after_import_step :: "ustr \<Rightarrow> ustr list \<times> bool \<Rightarrow> ustr list \<times> bool" where
  "after_import_step line st =
     (case st of (new_lines, inserted) \<Rightarrow>
        (let new_lines = new_lines @ [line]
         in if \<not> inserted \<and> startswith (py_strip line) (u ''import '') \<and>
               py_in (u ''fumadocs'') line
            then (new_lines @ [IMPORT_LINE], True)
            else (new_lines, inserted)))"

text \<open>The second insertion loop: after the second line that is \<open>---\<close>.  Its state is
  \<open>result\<close>, \<open>in_frontmatter\<close> and \<open>fm_closed\<close>.\<close>

definition after_frontmatter_step ::
  "ustr \<Rightarrow> ustr list \<times> bool \<times> bool \<Rightarrow> ustr list \<times> bool \<times> bool" where
  "after_frontmatter_step line st =
     (case st of (result, in_frontmatter, fm_closed) \<Rightarrow>
        (let result = result @ [line]
         in if py_strip line = u ''---'' \<and> \<not> in_frontmatter then (result, True, fm_closed)
            else if py_strip line = u ''---'' \<and> in_frontmatter \<and> \<not> fm_closed then
              (result @ [[10]] @ [IMPORT_LINE], in_frontmatter, True)
            else (result, in_frontmatter, fm_closed)))"

definition add_import :: "ustr list \<Rightarrow> ustr list" where
  "add_import lines =
     (case fold after_import_step lines ([], False) of (new_lines, inserted) \<Rightarrow>
        if \<not> inserted then fst (fold after_frontmatter_step new_lines ([], False, False))
        else new_lines)"

text \<open>
  \<open>convert_file\<close> on the text of a file: the result is what the function returns and the text of
  the file afterwards.  The file is written only on the last line of the function.
\<close>

definition convert_file :: "(ustr \<Rightarrow> ustr) \<Rightarrow> ustr \<Rightarrow> bool \<times> ustr" where
  "convert_file lower file =
     (let content = read_text file;
          lines = splitlines content;
          blocks = find_table_blocks (map (py_rstrip_chars [10]) lines)
      in if blocks = [] then (False, file)
         else
          (let has_import = py_in (py_strip IMPORT_LINE) content
           in case fold (replace_block lower) (rev blocks) (lines, False) of
                (lines, modified) \<Rightarrow>
                  if \<not> modified then (False, file)
                  else (let lines = (if \<not> has_import then add_import lines else lines)
                        in (True, concat lines))))"

section \<open>The key normalizer\<close>

text \<open>
  \<open>BAD_KEY\<close> is \<open>^(\s+)\{`(.*?)`\}:\<close> in multi-line mode.  At the start of a line it takes
  the longest run of whitespace (which must not be empty, and may hold newlines), then an
  opening brace and backtick, then the shortest text without a newline that is followed by
  backtick, closing brace and colon.  \<open>match_bad_key\<close> gives the two groups and the text
  after the match.
\<close>

definition match_bad_key :: "ustr \<Rightarrow> (ustr \<times> ustr \<times> ustr) option" where
  "match_bad_key s =
     (let indent = takeWhile is_space s; rest = dropWhile is_space s
      in if indent = [] then None
         else if \<not> prefix [123, 96] rest then None
         else (case lazy_star [96, 125, 58] (drop 2 rest) of
                 None \<Rightarrow> None
               | Some (inner, r) \<Rightarrow> Some (indent, inner, r)))"

lemma match_bad_key_length: "match_bad_key s = Some (a, b, r) \<Longrightarrow> length r < length s"
proof -
  assume m: "match_bad_key s = Some (a, b, r)"
  then have "lazy_star [96, 125, 58] (drop 2 (dropWhile is_space s)) = Some (b, r)"
    and "takeWhile is_space s \<noteq> []"
    by (auto simp: match_bad_key_def Let_def split: if_splits option.splits)
  then have "length r \<le> length (dropWhile is_space s) - 2" and "s \<noteq> []"
    by (auto dest: lazy_star_length)
  moreover have "length (dropWhile is_space s) \<le> length s"
    by (rule length_dropWhile_le)
  ultimately show ?thesis by (cases s) auto
qed

definition fix_key :: "ustr \<Rightarrow> ustr \<Rightarrow> ustr" where
  "fix_key indent inner0 =
     (let inner1 = py_replace [92, 96] [] inner0;
          inner2 = py_replace [34] [92, 34] inner1
      in indent @ [34] @ inner2 @ [34] @ u '':'')"

text \<open>
  \<open>BAD_KEY.sub(fix_key, text)\<close>: the scan goes left to right; \<open>bol\<close> says that the position is
  the start of the text or follows a newline, where \<open>^\<close> matches.
\<close>

function bad_key_sub :: "bool \<Rightarrow> ustr \<Rightarrow> ustr" where
  "bad_key_sub bol s =
     (if s = [] then []
      else (case (if bol then match_bad_key s else None) of
              Some (indent, inner, r) \<Rightarrow> fix_key indent inner @ bad_key_sub False r
            | None \<Rightarrow> hd s # bad_key_sub (hd s = 10) (tl s)))"
  by pat_completeness auto
termination
  by (relation "measure (\<lambda>(bol, s). length s)")
     (auto split: if_splits dest: match_bad_key_length)

declare bad_key_sub.simps [simp del]

text \<open>The body of the loop of \<open>fix-keys.py\<close> for one file: \<open>None\<close> when the file is not
  written, the new text when it is.\<close>

definition fix_keys_file :: "ustr \<Rightarrow> ustr option" where
  "fix_keys_file file =
     (let text' = read_text file
      in if \<not> py_in [123, 96] text' then None
         else (let new_text = bad_key_sub True text'
               in if new_text \<noteq> text' then Some new_text else None))"


section \<open>Properties of the column-role classifier\<close>

text \<open>Whitespace at the ends of a header cannot hide or create a keyword, so the strip in
  \<open>headers_to_mapping\<close> does not show in the rules.\<close>

lemma sublist_skip_left:
  assumes "\<forall>c\<in>set a. P c" "\<forall>c\<in>set kw. \<not> P c" "kw \<noteq> []"
  shows "sublist kw (a @ b) = sublist kw b"
  using assms
proof (induction a)
  case Nil
  then show ?case by simp
next
  case (Cons x a)
  obtain k ks where kw: "kw = k # ks" using Cons.prems(3) by (cases kw) auto
  have "\<not> prefix kw (x # a @ b)" using Cons.prems kw by auto
  then show ?case using Cons by (simp add: sublist_Cons_right)
qed

lemma sublist_skip_right:
  assumes "\<forall>c\<in>set a. P c" "\<forall>c\<in>set kw. \<not> P c" "kw \<noteq> []"
  shows "sublist kw (b @ a) = sublist kw b"
proof -
  have "sublist (rev kw) (rev a @ rev b) = sublist (rev kw) (rev b)"
    by (rule sublist_skip_left[where P=P]) (use assms in auto)
  then show ?thesis by (metis rev_append sublist_rev)
qed

lemma sublist_strip_by:
  assumes "\<forall>c\<in>set kw. \<not> P c" "kw \<noteq> []"
  shows "sublist kw (strip_by P s) = sublist kw s"
proof -
  let ?m = "dropWhile P s"
  have "sublist kw s = sublist kw (takeWhile P s @ ?m)" by simp
  also have "\<dots> = sublist kw ?m"
    by (rule sublist_skip_left[where P=P]) (use assms in \<open>auto dest: set_takeWhileD\<close>)
  also have "?m = strip_by P s @ rev (takeWhile P (rev ?m))"
    by (metis lstrip_by_def rstrip_by_def strip_by_def rev_append rev_rev_ident takeWhile_dropWhile_id)
  also have "sublist kw (strip_by P s @ rev (takeWhile P (rev ?m))) = sublist kw (strip_by P s)"
    by (rule sublist_skip_right[where P=P]) (use assms in \<open>auto dest: set_takeWhileD\<close>)
  finally show ?thesis by simp
qed

lemma py_in_strip:
  "kw \<noteq> [] \<Longrightarrow> list_all (\<lambda>c. \<not> is_space c) kw \<Longrightarrow> py_in kw (py_strip s) = py_in kw s"
  unfolding py_in_def py_strip_def by (rule sublist_strip_by) (auto simp: list_all_iff)

lemma keyword_strip:
  "py_in (u ''type'') (py_strip s) = py_in (u ''type'') s"
  "py_in (u ''default'') (py_strip s) = py_in (u ''default'') s"
  "py_in (u ''method'') (py_strip s) = py_in (u ''method'') s"
  "py_in (u ''binding'') (py_strip s) = py_in (u ''binding'') s"
  "py_in (u ''protocol'') (py_strip s) = py_in (u ''protocol'') s"
  "py_in (u ''format'') (py_strip s) = py_in (u ''format'') s"
  "py_in (u ''strategy'') (py_strip s) = py_in (u ''strategy'') s"
  "py_in (u ''returns'') (py_strip s) = py_in (u ''returns'') s"
  by (rule py_in_strip; simp add: u_def is_space_def)+

text \<open>
  The header of column \<open>i\<close> contains the keyword \<open>kw\<close>, letter case ignored: the keyword
  stands somewhere in the lower-cased header.
\<close>

definition header_has :: "(ustr \<Rightarrow> ustr) \<Rightarrow> ustr list \<Rightarrow> nat \<Rightarrow> string \<Rightarrow> bool" where
  "header_has lower headers i kw \<longleftrightarrow> sublist (u kw) (lower (headers ! i))"

text \<open>
  Claim C1.  For every list of header cells, with header text matched in lower case and
  column 0 never given a role, \<open>headers_to_mapping\<close> returns: for 2 columns, column 1 as
  the description; for 3 and for 4 columns, the result of the ordered keyword rules, and the
  merge of all further columns when no rule applies; for 5 or more columns, the merge of all
  further columns.  The result has exactly one of the two shapes, and header lists that agree
  in lower case get the same result.
\<close>

theorem headers_to_mapping_rules:
  "(length hs = 2 \<longrightarrow> headers_to_mapping lower hs = Fields [(1, Some (u ''description''))]) \<and>
   (length hs = 3 \<longrightarrow> headers_to_mapping lower hs =
      (if header_has lower hs 1 ''type'' then
         Fields [(1, Some (u ''type'')), (2, Some (u ''description''))]
       else if header_has lower hs 2 ''default'' then
         Fields [(1, Some (u ''description'')), (2, Some (u ''default''))]
       else if (\<exists>kw \<in> {''method'', ''binding'', ''protocol'', ''format'', ''strategy'', ''returns''}.
                  header_has lower hs 1 kw) then
         Fields [(1, Some (u ''type'')), (2, Some (u ''description''))]
       else Merge [1, 2])) \<and>
   (length hs = 4 \<longrightarrow> headers_to_mapping lower hs =
      (if header_has lower hs 1 ''type'' \<and> header_has lower hs 3 ''default'' then
         Fields [(1, Some (u ''type'')), (2, Some (u ''description'')), (3, Some (u ''default''))]
       else if header_has lower hs 3 ''default'' then
         Fields [(1, Some (u ''description'')), (2, Some (u ''type'')), (3, Some (u ''default''))]
       else if header_has lower hs 1 ''type'' then
         Fields [(1, Some (u ''type'')), (2, Some (u ''description'')), (3, Some (u ''default''))]
       else Merge [1, 2, 3])) \<and>
   (5 \<le> length hs \<longrightarrow> headers_to_mapping lower hs = Merge [1 ..< length hs]) \<and>
   ((\<exists>fs. headers_to_mapping lower hs = Fields fs) \<noteq> (\<exists>ms. headers_to_mapping lower hs = Merge ms)) \<and>
   (\<forall>hs'. map lower hs' = map lower hs \<longrightarrow>
      headers_to_mapping lower hs' = headers_to_mapping lower hs)"
proof -
  have two: "length hs = 2 \<Longrightarrow> headers_to_mapping lower hs = Fields [(1, Some (u ''description''))]"
    by (simp add: headers_to_mapping_def)
  have three: "headers_to_mapping lower hs =
      (if header_has lower hs 1 ''type'' then
         Fields [(1, Some (u ''type'')), (2, Some (u ''description''))]
       else if header_has lower hs 2 ''default'' then
         Fields [(1, Some (u ''description'')), (2, Some (u ''default''))]
       else if (\<exists>kw \<in> {''method'', ''binding'', ''protocol'', ''format'', ''strategy'', ''returns''}.
                  header_has lower hs 1 kw) then
         Fields [(1, Some (u ''type'')), (2, Some (u ''description''))]
       else Merge [1, 2])" if "length hs = 3"
  proof -
    have up: "[Suc 0 ..< 3] = [Suc 0, 2]" by (simp add: upt_rec)
    show ?thesis using that
      by (simp add: headers_to_mapping_def Let_def any_in_def keyword_strip header_has_def up
            py_in_def[symmetric])
  qed
  have four: "headers_to_mapping lower hs =
      (if header_has lower hs 1 ''type'' \<and> header_has lower hs 3 ''default'' then
         Fields [(1, Some (u ''type'')), (2, Some (u ''description'')), (3, Some (u ''default''))]
       else if header_has lower hs 3 ''default'' then
         Fields [(1, Some (u ''description'')), (2, Some (u ''type'')), (3, Some (u ''default''))]
       else if header_has lower hs 1 ''type'' then
         Fields [(1, Some (u ''type'')), (2, Some (u ''description'')), (3, Some (u ''default''))]
       else Merge [1, 2, 3])" if "length hs = 4"
  proof -
    have up: "[Suc 0 ..< 4] = [Suc 0, 2, 3]" by (simp add: upt_rec)
    show ?thesis using that
      by (simp add: headers_to_mapping_def Let_def any_in_def keyword_strip header_has_def up
            py_in_def[symmetric])
  qed
  have five: "5 \<le> length hs \<Longrightarrow> headers_to_mapping lower hs = Merge [1 ..< length hs]"
    by (simp add: headers_to_mapping_def)
  have shape: "(\<exists>fs. headers_to_mapping lower hs = Fields fs) \<noteq> (\<exists>ms. headers_to_mapping lower hs = Merge ms)"
    by (cases "headers_to_mapping lower hs") auto
  have ci: "headers_to_mapping lower hs' = headers_to_mapping lower hs"
    if "map lower hs' = map lower hs" for hs'
  proof -
    have "map (\<lambda>col. py_strip (lower col)) hs' = map py_strip (map lower hs')" by simp
    also have "\<dots> = map (\<lambda>col. py_strip (lower col)) hs" using that by simp
    finally show ?thesis by (simp add: headers_to_mapping_def)
  qed
  show ?thesis using two three four five shape ci by (intro conjI impI allI)
qed



theorem headers_to_mapping_rules_witness:
  "headers_to_mapping ascii_lower [u ''Name'', u ''Description''] =
     Fields [(1, Some (u ''description''))] \<and>
   headers_to_mapping ascii_lower [u ''Option'', u ''Data TYPE'', u ''Notes''] =
     Fields [(1, Some (u ''type'')), (2, Some (u ''description''))] \<and>
   headers_to_mapping ascii_lower [u ''Flag'', u ''Meaning'', u ''Default''] =
     Fields [(1, Some (u ''description'')), (2, Some (u ''default''))] \<and>
   headers_to_mapping ascii_lower [u ''Call'', u ''Returns'', u ''Notes''] =
     Fields [(1, Some (u ''type'')), (2, Some (u ''description''))] \<and>
   headers_to_mapping ascii_lower [u ''A'', u ''B'', u ''C''] = Merge [1, 2] \<and>
   headers_to_mapping ascii_lower [u ''Key'', u ''Kind'', u ''Notes'', u ''Default value''] =
     Fields [(1, Some (u ''description'')), (2, Some (u ''type'')), (3, Some (u ''default''))] \<and>
   headers_to_mapping ascii_lower [u ''A'', u ''B'', u ''C'', u ''D'', u ''E''] = Merge [1, 2, 3, 4] \<and>
   headers_to_mapping ascii_lower [u ''NAME'', u ''TYPE'', u ''NOTES''] =
     headers_to_mapping ascii_lower [u ''name'', u ''type'', u ''notes'']"
proof -
  note r = headers_to_mapping_rules[where lower = ascii_lower]
  have a: "header_has ascii_lower [u ''Option'', u ''Data TYPE'', u ''Notes''] 1 ''type''"
    by code_simp
  have b: "\<not> header_has ascii_lower [u ''Flag'', u ''Meaning'', u ''Default''] 1 ''type''"
    "header_has ascii_lower [u ''Flag'', u ''Meaning'', u ''Default''] 2 ''default''"
    by code_simp+
  have c: "\<not> header_has ascii_lower [u ''Call'', u ''Returns'', u ''Notes''] 1 ''type''"
    "\<not> header_has ascii_lower [u ''Call'', u ''Returns'', u ''Notes''] 2 ''default''"
    "header_has ascii_lower [u ''Call'', u ''Returns'', u ''Notes''] 1 ''returns''"
    by code_simp+
  have d: "\<not> header_has ascii_lower [u ''A'', u ''B'', u ''C''] 1 ''type''"
    "\<not> header_has ascii_lower [u ''A'', u ''B'', u ''C''] 2 ''default''"
    "\<not> header_has ascii_lower [u ''A'', u ''B'', u ''C''] 1 ''method''"
    "\<not> header_has ascii_lower [u ''A'', u ''B'', u ''C''] 1 ''binding''"
    "\<not> header_has ascii_lower [u ''A'', u ''B'', u ''C''] 1 ''protocol''"
    "\<not> header_has ascii_lower [u ''A'', u ''B'', u ''C''] 1 ''format''"
    "\<not> header_has ascii_lower [u ''A'', u ''B'', u ''C''] 1 ''strategy''"
    "\<not> header_has ascii_lower [u ''A'', u ''B'', u ''C''] 1 ''returns''"
    by code_simp+
  have e: "\<not> header_has ascii_lower [u ''Key'', u ''Kind'', u ''Notes'', u ''Default value''] 1 ''type''"
    "header_has ascii_lower [u ''Key'', u ''Kind'', u ''Notes'', u ''Default value''] 3 ''default''"
    by code_simp+
  have f: "[1 ..< 5] = [1, 2, 3, 4::nat]" by (simp add: upt_rec)
  have g: "map ascii_lower [u ''NAME'', u ''TYPE'', u ''NOTES''] =
           map ascii_lower [u ''name'', u ''type'', u ''notes'']" by (simp add: ascii_lower_def u_def)
  have 1: "headers_to_mapping ascii_lower [u ''Name'', u ''Description''] =
     Fields [(1, Some (u ''description''))]"
    using r[of "[u ''Name'', u ''Description'']"] by simp
  have 2: "headers_to_mapping ascii_lower [u ''Option'', u ''Data TYPE'', u ''Notes''] =
     Fields [(1, Some (u ''type'')), (2, Some (u ''description''))]"
    using r[of "[u ''Option'', u ''Data TYPE'', u ''Notes'']"] a by simp
  have 3: "headers_to_mapping ascii_lower [u ''Flag'', u ''Meaning'', u ''Default''] =
     Fields [(1, Some (u ''description'')), (2, Some (u ''default''))]"
    using r[of "[u ''Flag'', u ''Meaning'', u ''Default'']"] b by simp
  have 4: "headers_to_mapping ascii_lower [u ''Call'', u ''Returns'', u ''Notes''] =
     Fields [(1, Some (u ''type'')), (2, Some (u ''description''))]"
    using r[of "[u ''Call'', u ''Returns'', u ''Notes'']"] c by simp
  have 5: "headers_to_mapping ascii_lower [u ''A'', u ''B'', u ''C''] = Merge [1, 2]"
    using r[of "[u ''A'', u ''B'', u ''C'']"] d by simp
  have 6: "headers_to_mapping ascii_lower [u ''Key'', u ''Kind'', u ''Notes'', u ''Default value''] =
     Fields [(1, Some (u ''description'')), (2, Some (u ''type'')), (3, Some (u ''default''))]"
    using r[of "[u ''Key'', u ''Kind'', u ''Notes'', u ''Default value'']"] e by simp
  have 7: "headers_to_mapping ascii_lower [u ''A'', u ''B'', u ''C'', u ''D'', u ''E''] = Merge [1, 2, 3, 4]"
    using r[of "[u ''A'', u ''B'', u ''C'', u ''D'', u ''E'']"] f by simp
  have 8: "headers_to_mapping ascii_lower [u ''NAME'', u ''TYPE'', u ''NOTES''] =
     headers_to_mapping ascii_lower [u ''name'', u ''type'', u ''notes'']"
    using r[of "[u ''name'', u ''type'', u ''notes'']"] g by blast
  show ?thesis using 1 2 3 4 5 6 7 8 by (intro conjI)
qed



section \<open>Properties of the value renderer\<close>

lemma py_in_single: "py_in [c] s \<longleftrightarrow> c \<in> set s"
  unfolding py_in_def by (induction s) (auto simp: sublist_Cons_right)

lemma py_replace_single:
  "py_replace [c] new s = concat (map (\<lambda>x. if x = c then new else [x]) s)"
proof (induction s)
  case Nil
  show ?case by (simp add: py_replace.simps)
next
  case (Cons a s)
  show ?case using Cons by (subst py_replace.simps) auto
qed

text \<open>
  The two escaped forms as the specification words them: every backslash, backtick and
  dollar sign gets a backslash in front; every double quote becomes the entity \<open>&quot;\<close>.
\<close>

definition escape_template :: "ustr \<Rightarrow> ustr" where
  "escape_template v = concat (map (\<lambda>c. if c = 92 \<or> c = 96 \<or> c = 36 then [92, c] else [c]) v)"

definition escape_quoted :: "ustr \<Rightarrow> ustr" where
  "escape_quoted v = concat (map (\<lambda>c. if c = 34 then u ''&quot;'' else [c]) v)"

lemma three_replaces:
  "py_replace (u ''$'') [92, 36] (py_replace [96] [92, 96] (py_replace [92] [92, 92] v)) =
   escape_template v"
  by (induction v) (simp_all add: py_replace_single u_def escape_template_def)

text \<open>
  Claim C4.  Let \<open>v\<close> be the cell value after stripping whitespace and removing bold
  markers.  If \<open>v\<close> contains a backtick, \<open><\<close>, \<open>>\<close> or \<open>{\<close>, the rendered value is \<open>v\<close> with
  every backslash, backtick and dollar sign backslash-escaped, between \<open>{`\<close> and \<open>`}\<close>;
  otherwise it is \<open>v\<close> with every double quote replaced by \<open>&quot;\<close>, between double
  quotes.
\<close>

theorem to_jsx_string_forms:
  "(set (unwrap (u ''**'') (py_strip s)) \<inter> {96, 60, 62, 123} \<noteq> {} \<longrightarrow>
      to_jsx_string s = [123, 96] @ escape_template (unwrap (u ''**'') (py_strip s)) @ [96, 125]) \<and>
   (set (unwrap (u ''**'') (py_strip s)) \<inter> {96, 60, 62, 123} = {} \<longrightarrow>
      to_jsx_string s = [34] @ escape_quoted (unwrap (u ''**'') (py_strip s)) @ [34])"
proof -
  let ?v = "unwrap (u ''**'') (py_strip s)"
  have c: "(py_in [96] ?v \<or> py_in (u ''<'') ?v \<or> py_in (u ''>'') ?v \<or> py_in (u ''{'') ?v)
        \<longleftrightarrow> set ?v \<inter> {96, 60, 62, 123} \<noteq> {}"
    by (auto simp: py_in_single u_def)
  have q: "py_replace [34] (u ''&quot;'') ?v = escape_quoted ?v"
    by (simp add: py_replace_single escape_quoted_def)
  show ?thesis
    unfolding to_jsx_string_def Let_def c three_replaces q by simp
qed

theorem to_jsx_string_forms_witness:
  "to_jsx_string (u '' **a** <b> $c '') = [123, 96] @ u ''a <b> '' @ [92] @ u ''$c'' @ [96, 125] \<and>
   to_jsx_string (u ''say '' @ [34] @ u ''hi'' @ [34]) = [34] @ u ''say &quot;hi&quot;'' @ [34]"
proof -
  have v1: "unwrap (u ''**'') (py_strip (u '' **a** <b> $c '')) = u ''a <b> $c''"
    by (simp add: u_def py_strip_def strip_by_def lstrip_by_def rstrip_by_def is_space_def
          unwrap.simps lazy_plus_def)
  have v2: "unwrap (u ''**'') (py_strip (u ''say '' @ [34] @ u ''hi'' @ [34])) = u ''say '' @ [34] @ u ''hi'' @ [34]"
    by (simp add: u_def py_strip_def strip_by_def lstrip_by_def rstrip_by_def is_space_def
          unwrap.simps lazy_plus_def)
  have 1: "to_jsx_string (u '' **a** <b> $c '') = [123, 96] @ u ''a <b> '' @ [92] @ u ''$c'' @ [96, 125]"
    using to_jsx_string_forms[of "u '' **a** <b> $c ''"] unfolding v1
    by (simp add: u_def escape_template_def)
  have 2: "to_jsx_string (u ''say '' @ [34] @ u ''hi'' @ [34]) = [34] @ u ''say &quot;hi&quot;'' @ [34]"
    using to_jsx_string_forms[of "u ''say '' @ [34] @ u ''hi'' @ [34]"] unfolding v2
    by (simp add: u_def escape_quoted_def)
  show ?thesis using 1 2 by (intro conjI)
qed



section \<open>Properties of the row renderer\<close>

lemma blank_value_iff: "blank_value v \<longleftrightarrow> v \<in> {[], [8212], u ''-''}"
  by (auto simp: blank_value_def)



text \<open>The definitions that evaluate the string operations on a literal.\<close>

lemmas eval_strings = u_def py_strip_def py_strip_chars_def py_rstrip_chars_def strip_by_def
  lstrip_by_def rstrip_by_def is_space_def startswith_def





text \<open>The mapping without a role for column \<open>i\<close>.\<close>

definition without_column :: "nat \<Rightarrow> mapping \<Rightarrow> mapping" where
  "without_column i m =
     (case m of Fields fs \<Rightarrow> Fields (filter (\<lambda>(j, f). j \<noteq> i) fs)
      | Merge cols \<Rightarrow> Merge (filter (\<lambda>j. j \<noteq> i) cols))"

text \<open>The columns a mapping gives a role.\<close>

definition role_columns :: "mapping \<Rightarrow> nat list" where
  "role_columns m =
     (case m of Fields fs \<Rightarrow> map fst (filter (\<lambda>(j, f). f \<noteq> None) fs) | Merge cols \<Rightarrow> cols)"

lemma merge_parts_without:
  assumes "i < length row \<longrightarrow> blank_value (py_strip (row ! i))"
  shows "merge_parts row headers (filter (\<lambda>j. j \<noteq> i) cols) = merge_parts row headers cols"
  using assms unfolding merge_parts_def by (induction cols) (auto simp: Let_def)

lemma field_props_unsorted_without:
  assumes "i < length row \<longrightarrow> blank_value (py_strip (row ! i))"
  shows "concat (map (\<lambda>(col_idx, field_name).
       (case field_name of None \<Rightarrow> []
        | Some name \<Rightarrow>
            if col_idx \<ge> length row then []
            else (let val = py_strip (row ! col_idx)
                  in if blank_value val then []
                     else [u ''      '' @ name @ u '': '' @ to_jsx_string val @ u '',''])))
       (filter (\<lambda>(j, f). j \<noteq> i) xs)) =
     concat (map (\<lambda>(col_idx, field_name).
       (case field_name of None \<Rightarrow> []
        | Some name \<Rightarrow>
            if col_idx \<ge> length row then []
            else (let val = py_strip (row ! col_idx)
                  in if blank_value val then []
                     else [u ''      '' @ name @ u '': '' @ to_jsx_string val @ u '',''])))
       xs)"
  using assms by (induction xs) (auto simp: Let_def split: option.splits)

lemma sort_key_filter_fst:
  "sort_key fst (filter (\<lambda>(j, f). j \<noteq> i) (fs :: (nat \<times> 'a) list)) =
   filter (\<lambda>(j, f). j \<noteq> i) (sort_key fst fs)"
proof -
  have "(\<lambda>(j, f). j \<noteq> i) = (\<lambda>p :: nat \<times> 'a. fst p \<noteq> i)" by auto
  then show ?thesis by (simp add: filter_sort)
qed

lemma field_props_without:
  assumes "i < length row \<longrightarrow> blank_value (py_strip (row ! i))"
  shows "field_props row (filter (\<lambda>(j, f). j \<noteq> i) fs) = field_props row fs"
  unfolding field_props_def sort_key_filter_fst
  by (rule field_props_unsorted_without[OF assms])

lemma row_props_without:
  assumes "i < length row \<longrightarrow> blank_value (py_strip (row ! i))"
  shows "row_props row (without_column i m) headers = row_props row m headers"
  by (cases m)
     (simp_all add: row_props_def without_column_def merge_parts_without[OF assms]
        field_props_without[OF assms])

lemma merge_parts_none:
  assumes "\<forall>i \<in> set cols. i < length row \<longrightarrow> blank_value (py_strip (row ! i))"
  shows "merge_parts row headers cols = []"
proof -
  have "(if c < length row then
         (let val = py_strip (row ! c)
          in if \<not> blank_value val then
               (if headers \<noteq> [] \<and> c < length headers then
                  [py_strip (headers ! c) @ u '': '' @ val]
                else [val])
             else [])
       else []) = []" if "c \<in> set cols" for c
    using assms that by (simp add: Let_def)
  then show ?thesis unfolding merge_parts_def by simp
qed

lemma field_props_none:
  assumes "\<forall>i \<in> set (map fst (filter (\<lambda>(j, f). f \<noteq> None) fs)).
             i < length row \<longrightarrow> blank_value (py_strip (row ! i))"
  shows "field_props row fs = []"
proof -
  have "(case p of (col_idx, field_name) \<Rightarrow>
       (case field_name of None \<Rightarrow> []
        | Some name \<Rightarrow>
            if col_idx \<ge> length row then []
            else (let val = py_strip (row ! col_idx)
                  in if blank_value val then []
                     else [u ''      '' @ name @ u '': '' @ to_jsx_string val @ u '','']))) = []"
    if "p \<in> set fs" for p
  proof (cases p)
    case (Pair c f)
    show ?thesis
    proof (cases f)
      case None
      then show ?thesis using Pair by simp
    next
      case (Some name)
      then have "c < length row \<longrightarrow> blank_value (py_strip (row ! c))"
        using assms that Pair by force
      then show ?thesis using Pair Some by (simp add: Let_def)
    qed
  qed
  then show ?thesis unfolding field_props_def by simp
qed

text \<open>
  Claim C6.  In both modes, a cell whose stripped value is empty, the em dash or the hyphen
  produces no field: the entry is the one rendered when the column has no role at all.  When
  every column with a role is absent from the row or blank in this sense, the entry is the
  empty object, and it still carries the normalized key.
\<close>

theorem blank_cells_omitted:
  "((i < length row \<longrightarrow> py_strip (row ! i) \<in> {[], [8212], u ''-''}) \<longrightarrow>
      row_to_type_node key row m headers = row_to_type_node key row (without_column i m) headers) \<and>
   ((\<forall>j \<in> set (role_columns m). j < length row \<longrightarrow> py_strip (row ! j) \<in> {[], [8212], u ''-''}) \<longrightarrow>
      row_to_type_node key row m headers = u ''    '' @ to_jsx_key key @ u '': {},'' @ [10])"
proof (intro conjI impI)
  assume "i < length row \<longrightarrow> py_strip (row ! i) \<in> {[], [8212], u ''-''}"
  then have "i < length row \<longrightarrow> blank_value (py_strip (row ! i))"
    by (simp add: blank_value_iff)
  then show "row_to_type_node key row m headers = row_to_type_node key row (without_column i m) headers"
    by (simp add: row_to_type_node_def row_props_without)
next
  assume "\<forall>j \<in> set (role_columns m). j < length row \<longrightarrow> py_strip (row ! j) \<in> {[], [8212], u ''-''}"
  then have a: "\<forall>j \<in> set (role_columns m). j < length row \<longrightarrow> blank_value (py_strip (row ! j))"
    by (simp add: blank_value_iff)
  have "row_props row m headers = []"
  proof (cases m)
    case (Fields fs)
    then show ?thesis using a field_props_none[of fs row]
      by (simp add: row_props_def role_columns_def)
  next
    case (Merge cols)
    then show ?thesis using a merge_parts_none[of cols row headers]
      by (simp add: row_props_def role_columns_def)
  qed
  then show "row_to_type_node key row m headers = u ''    '' @ to_jsx_key key @ u '': {},'' @ [10]"
    by (simp add: row_to_type_node_def)
qed


theorem blank_cells_omitted_witness:
  "row_to_type_node (u ''k'') [u ''k'', u ''-'', u ''x'']
     (Fields [(1, Some (u ''type'')), (2, Some (u ''description''))]) [] =
   row_to_type_node (u ''k'') [u ''k'', u ''-'', u ''x''] (Fields [(2, Some (u ''description''))]) [] \<and>
   row_to_type_node (u ''k'') [u ''k'', [8212], u '' ''] (Merge [1, 2]) [u ''a'', u ''b'', u ''c''] =
   u ''    '' @ to_jsx_key (u ''k'') @ u '': {},'' @ [10]"
proof -
  let ?r1 = "[u ''k'', u ''-'', u ''x'']"
  let ?m1 = "Fields [(1, Some (u ''type'')), (2, Some (u ''description''))]"
  let ?r2 = "[u ''k'', [8212], u '' '']"
  have p1: "1 < length ?r1 \<longrightarrow> py_strip (?r1 ! 1) \<in> {[], [8212], u ''-''}"
    by (simp add: eval_strings)
  have w: "without_column 1 ?m1 = Fields [(2, Some (u ''description''))]"
    by (simp add: without_column_def)
  have p2: "\<forall>j \<in> set (role_columns (Merge [1, 2])). j < length ?r2 \<longrightarrow>
              py_strip (?r2 ! j) \<in> {[], [8212], u ''-''}"
    by (simp add: role_columns_def eval_strings)
  have 1: "row_to_type_node (u ''k'') ?r1 ?m1 [] =
           row_to_type_node (u ''k'') ?r1 (Fields [(2, Some (u ''description''))]) []"
    using blank_cells_omitted[of 1 ?r1 "u ''k''" ?m1 "[]", THEN conjunct1, THEN mp, OF p1]
    unfolding w .
  have 2: "row_to_type_node (u ''k'') ?r2 (Merge [1, 2]) [u ''a'', u ''b'', u ''c''] =
           u ''    '' @ to_jsx_key (u ''k'') @ u '': {},'' @ [10]"
    by (rule blank_cells_omitted[of 0 ?r2 "u ''k''" "Merge [1, 2]" "[u ''a'', u ''b'', u ''c'']",
          THEN conjunct2, THEN mp, OF p2])
  show ?thesis using 1 2 by (intro conjI)
qed

section \<open>Properties of the table renderer\<close>

lemma table_entries_append:
  "table_entries headers mp (rs1 @ rs2) = table_entries headers mp rs1 @ table_entries headers mp rs2"
  by (simp add: table_entries_def)

text \<open>
  Claim C10.  A data row that is empty, or whose first cell is the empty string, contributes
  nothing to the generated fragment: the table renders as it does without the row, and a
  table of such a row alone has no entry.
\<close>

theorem keyless_rows_dropped:
  "(row = [] \<or> row ! 0 = []) \<longrightarrow>
     table_to_type_table lower headers (rows1 @ row # rows2) =
       table_to_type_table lower headers (rows1 @ rows2) \<and>
     table_to_type_table lower headers [row] =
       u ''<TypeTable'' @ [10] @ u ''  type={'' @ [10] @ u ''  }'' @ [10] @ u ''/>''"
proof
  assume a: "row = [] \<or> row ! 0 = []"
  then have e: "table_entries headers mp [row] = []" for mp
    by (auto simp: table_entries_def)
  have "table_entries headers mp (rows1 @ row # rows2) = table_entries headers mp (rows1 @ rows2)" for mp
    using e[of mp] table_entries_append[of headers mp rows1 "[row] @ rows2"]
      table_entries_append[of headers mp "[row]" rows2]
      table_entries_append[of headers mp rows1 rows2] by simp
  then show "table_to_type_table lower headers (rows1 @ row # rows2) =
       table_to_type_table lower headers (rows1 @ rows2) \<and>
     table_to_type_table lower headers [row] =
       u ''<TypeTable'' @ [10] @ u ''  type={'' @ [10] @ u ''  }'' @ [10] @ u ''/>''"
    using e by (simp add: table_to_type_table_def)
qed

theorem keyless_rows_dropped_witness:
  "table_to_type_table ascii_lower [u ''Name'', u ''Notes'']
     ([[u ''a'', u ''b'']] @ [[], u ''x''] # [[u ''c'', u ''d'']]) =
   table_to_type_table ascii_lower [u ''Name'', u ''Notes''] ([[u ''a'', u ''b'']] @ [[u ''c'', u ''d'']]) \<and>
   table_to_type_table ascii_lower [u ''Name'', u ''Notes''] [[[], u ''x'']] =
   u ''<TypeTable'' @ [10] @ u ''  type={'' @ [10] @ u ''  }'' @ [10] @ u ''/>''"
proof -
  have p: "[[], u ''x''] = [] \<or> [[], u ''x''] ! 0 = []" by simp
  show ?thesis
    by (rule keyless_rows_dropped[of "[[], u ''x'']" ascii_lower "[u ''Name'', u ''Notes'']"
          "[[u ''a'', u ''b'']]" "[[u ''c'', u ''d'']]", THEN mp, OF p])
qed



section \<open>Properties of the table parser\<close>

text \<open>
  The parser as the specification words it: the separator is a line of pipes, dashes, colons
  and spaces only; a line is split by trimming the pipes at its ends, splitting on the pipe
  and trimming each cell; the rows are the later lines that start with the pipe.
\<close>

definition spec_sep_line :: "ustr \<Rightarrow> bool" where
  "spec_sep_line line \<longleftrightarrow> line \<noteq> [] \<and> list_all (\<lambda>c. c = 124 \<or> c = 45 \<or> c = 58 \<or> c = 32) line"

definition spec_split_row :: "ustr \<Rightarrow> ustr list" where
  "spec_split_row line = map py_strip (py_split 124 (py_strip_chars [124] line))"

definition spec_parse_table :: "ustr list \<Rightarrow> (ustr list \<times> ustr list list) option" where
  "spec_parse_table lines =
     (if length lines < 3 \<or> \<not> spec_sep_line (lines ! 1) then None
      else Some (spec_split_row (lines ! 0),
                 map spec_split_row (filter (\<lambda>l. startswith l [124]) (drop 2 lines))))"

lemma sep_line_iff:
  "sep_line line \<longleftrightarrow>
     (\<exists>body opt ws. line = [124] @ body @ opt @ ws \<and> body \<noteq> [] \<and> list_all sep_char body \<and>
        (opt = [] \<or> opt = [124]) \<and> list_all is_space ws)"
proof
  assume "sep_line line"
  then obtain rest where l: "line = 124 # rest" and b: "takeWhile sep_char rest \<noteq> []"
    and w: "list_all is_space (dropWhile sep_char rest)"
    by (auto simp: sep_line_def split: list.splits)
  have "line = [124] @ takeWhile sep_char rest @ [] @ dropWhile sep_char rest"
    using l by simp
  moreover have "list_all sep_char (takeWhile sep_char rest)"
    by (auto simp: list_all_iff dest: set_takeWhileD)
  ultimately show "\<exists>body opt ws. line = [124] @ body @ opt @ ws \<and> body \<noteq> [] \<and>
      list_all sep_char body \<and> (opt = [] \<or> opt = [124]) \<and> list_all is_space ws"
    using b w by blast
next
  assume "\<exists>body opt ws. line = [124] @ body @ opt @ ws \<and> body \<noteq> [] \<and> list_all sep_char body \<and>
        (opt = [] \<or> opt = [124]) \<and> list_all is_space ws"
  then obtain body opt ws where l: "line = [124] @ body @ opt @ ws" and b: "body \<noteq> []"
    and sb: "list_all sep_char body" and o: "opt = [] \<or> opt = [124]" and w: "list_all is_space ws"
    by blast
  have so: "list_all sep_char (body @ opt)" using sb o by (auto simp: sep_char_def)
  have t: "takeWhile sep_char ((body @ opt) @ ws) = (body @ opt) @ takeWhile sep_char ws"
    by (rule takeWhile_append2) (use so in \<open>auto simp: list_all_iff\<close>)
  have d: "dropWhile sep_char ((body @ opt) @ ws) = dropWhile sep_char ws"
    by (rule dropWhile_append2) (use so in \<open>auto simp: list_all_iff\<close>)
  have "list_all is_space (dropWhile sep_char ws)"
    using w by (auto simp: list_all_iff dest: set_dropWhileD)
  then show "sep_line line"
    using l b t d by (simp add: sep_line_def)
qed

lemma strip_keeps_pipe:
  assumes "startswith l [124]"
  shows "startswith (py_strip l) [124]"
proof -
  obtain r where l: "l = 124 # r" using assms by (cases l) (auto simp: startswith_def)
  have n: "\<not> is_space 124" by (simp add: is_space_def)
  have "lstrip_by is_space l = l" using l n by (simp add: lstrip_by_def)
  moreover have "rev l = rev r @ [124]" using l by simp
  then have "dropWhile is_space (rev l) = dropWhile is_space (rev r) @ [124]"
    using n by (simp add: dropWhile_append)
  ultimately have "py_strip l = 124 # rev (dropWhile is_space (rev r))"
    by (simp add: py_strip_def strip_by_def rstrip_by_def)
  then show ?thesis by (simp add: startswith_def)
qed

text \<open>
  Claim C7, amended.  The parser returns nothing when the block has fewer than 3 lines or its
  second line is not a separator: the pipe, then one or more characters among dash, pipe,
  space and colon, then nothing but whitespace up to the end of the line (the optional pipe
  of the expression adds nothing).  Otherwise it returns the first line split into header
  cells and, split into rows, the later lines whose whitespace-trimmed text starts with the
  pipe; in a block whose lines all start with the pipe these are all the later lines.
  Splitting trims the whitespace at both ends of the line first, then the pipes at both
  ends, splits on the pipe and trims the whitespace of every cell.
\<close>

theorem parse_table_contract:
  "(length lines < 3 \<or> \<not> sep_line (lines ! 1) \<longrightarrow> parse_table lines = None) \<and>
   (3 \<le> length lines \<and> sep_line (lines ! 1) \<longrightarrow>
      parse_table lines =
        Some (split_row (lines ! 0),
              map split_row (filter (\<lambda>l. startswith (py_strip l) [124]) (drop 2 lines)))) \<and>
   (3 \<le> length lines \<and> sep_line (lines ! 1) \<and> (\<forall>l \<in> set lines. startswith l [124]) \<longrightarrow>
      parse_table lines = Some (split_row (lines ! 0), map split_row (drop 2 lines))) \<and>
   (sep_line line \<longleftrightarrow>
      (\<exists>body opt ws. line = [124] @ body @ opt @ ws \<and> body \<noteq> [] \<and>
         list_all (\<lambda>c. c = 45 \<or> c = 124 \<or> c = 32 \<or> c = 58) body \<and>
         (opt = [] \<or> opt = [124]) \<and> list_all is_space ws)) \<and>
   split_row line = map py_strip (py_split 124 (py_strip_chars [124] (py_strip line)))"
proof -
  have a: "length lines < 3 \<or> \<not> sep_line (lines ! 1) \<longrightarrow> parse_table lines = None"
    by (auto simp: parse_table_def)
  have b: "3 \<le> length lines \<and> sep_line (lines ! 1) \<longrightarrow>
      parse_table lines =
        Some (split_row (lines ! 0),
              map split_row (filter (\<lambda>l. startswith (py_strip l) [124]) (drop 2 lines)))"
    by (auto simp: parse_table_def)
  have c: "3 \<le> length lines \<and> sep_line (lines ! 1) \<and> (\<forall>l \<in> set lines. startswith l [124]) \<longrightarrow>
      parse_table lines = Some (split_row (lines ! 0), map split_row (drop 2 lines))"
  proof
    assume h: "3 \<le> length lines \<and> sep_line (lines ! 1) \<and> (\<forall>l \<in> set lines. startswith l [124])"
    then have "\<forall>l \<in> set (drop 2 lines). startswith (py_strip l) [124]"
      by (auto dest: in_set_dropD intro: strip_keeps_pipe)
    then have "filter (\<lambda>l. startswith (py_strip l) [124]) (drop 2 lines) = drop 2 lines"
      by (simp add: filter_id_conv)
    then show "parse_table lines = Some (split_row (lines ! 0), map split_row (drop 2 lines))"
      using h by (simp add: parse_table_def)
  qed
  have sc: "sep_char = (\<lambda>c. c = 45 \<or> c = 124 \<or> c = 32 \<or> c = 58)"
    by (rule ext) (simp add: sep_char_def)
  have d: "sep_line line \<longleftrightarrow>
      (\<exists>body opt ws. line = [124] @ body @ opt @ ws \<and> body \<noteq> [] \<and>
         list_all (\<lambda>c. c = 45 \<or> c = 124 \<or> c = 32 \<or> c = 58) body \<and>
         (opt = [] \<or> opt = [124]) \<and> list_all is_space ws)"
    using sep_line_iff[of line] unfolding sc .
  have e: "split_row line = map py_strip (py_split 124 (py_strip_chars [124] (py_strip line)))"
    by (simp add: split_row_def)
  show ?thesis using a b c d e by (intro conjI)
qed


lemma split_row_example:
  "split_row (u ''| a | b | '') = [u ''a'', u ''b'']"
  "split_row (u ''| c | d | '') = [u ''c'', u ''d'']"
  by (simp_all add: split_row_def eval_strings)

theorem parse_table_contract_witness:
  "parse_table [u ''| a | b | '', u ''|---|---|'', u ''| c | d | ''] =
     Some ([u ''a'', u ''b''], [[u ''c'', u ''d'']]) \<and>
   parse_table [u ''| a | b | '', u ''|---|---|''] = None \<and>
   parse_table [u ''| a | b | '', u ''| c | d | '', u ''|---|---|''] = None"
proof -
  let ?B = "[u ''| a | b | '', u ''|---|---|'', u ''| c | d | '']"
  let ?C = "[u ''| a | b | '', u ''| c | d | '', u ''|---|---|'']"
  have h: "3 \<le> length ?B \<and> sep_line (?B ! 1) \<and> (\<forall>l \<in> set ?B. startswith l [124])"
    by (simp add: sep_line_def sep_char_def eval_strings)
  have 1: "parse_table ?B = Some ([u ''a'', u ''b''], [[u ''c'', u ''d'']])"
    using parse_table_contract[of ?B "[]", THEN conjunct2, THEN conjunct2, THEN conjunct1,
        THEN mp, OF h]
    by (simp add: split_row_example)
  have 2: "parse_table [u ''| a | b | '', u ''|---|---|''] = None"
    using parse_table_contract[of "[u ''| a | b | '', u ''|---|---|'']" "[]", THEN conjunct1]
    by simp
  have n: "\<not> sep_line (?C ! 1)"
    by (simp add: sep_line_def sep_char_def eval_strings)
  have 3: "parse_table ?C = None"
    using parse_table_contract[of ?C "[]", THEN conjunct1] n by simp
  show ?thesis using 1 2 3 by (intro conjI)
qed

text \<open>
  The claim as worded leaves out the first trim.  On a block whose lines end in a space the
  parser returns two cells per line, the worded splitting three.
\<close>

theorem parse_table_spec_counterexample:
  "parse_table [u ''| a | b | '', u ''|---|---|'', u ''| c | d | ''] =
     Some ([u ''a'', u ''b''], [[u ''c'', u ''d'']]) \<and>
   spec_parse_table [u ''| a | b | '', u ''|---|---|'', u ''| c | d | ''] =
     Some ([u ''a'', u ''b'', []], [[u ''c'', u ''d'', []]])"
proof -
  let ?B = "[u ''| a | b | '', u ''|---|---|'', u ''| c | d | '']"
  have s: "sep_line (u ''|---|---|'')" "spec_sep_line (u ''|---|---|'')"
    by (simp_all add: sep_line_def sep_char_def spec_sep_line_def eval_strings)
  have f: "startswith (py_strip (u ''| c | d | '')) [124]" "startswith (u ''| c | d | '') [124]"
    by (simp_all add: eval_strings)
  have x: "spec_split_row (u ''| a | b | '') = [u ''a'', u ''b'', []]"
    "spec_split_row (u ''| c | d | '') = [u ''c'', u ''d'', []]"
    by (simp_all add: spec_split_row_def eval_strings)
  have 1: "parse_table ?B = Some ([u ''a'', u ''b''], [[u ''c'', u ''d'']])"
    by (simp add: parse_table_def s f split_row_example)
  have 2: "spec_parse_table ?B = Some ([u ''a'', u ''b'', []], [[u ''c'', u ''d'', []]])"
    by (simp add: spec_parse_table_def s f x)
  show ?thesis using 1 2 by (intro conjI)
qed



section \<open>Properties of the key normalizer\<close>

text \<open>
  The rewriting of the captured key as the specification words it: every backslash that
  stands before a backtick goes away together with the backtick, then every double quote
  gets a backslash in front.
\<close>

fun drop_escaped_backticks :: "ustr \<Rightarrow> ustr" where
  "drop_escaped_backticks (a # b # cs) =
     (if a = 92 \<and> b = 96 then drop_escaped_backticks cs else a # drop_escaped_backticks (b # cs))"
| "drop_escaped_backticks cs = cs"

definition escape_quotes :: "ustr \<Rightarrow> ustr" where
  "escape_quotes s = concat (map (\<lambda>c. if c = 34 then [92, 34] else [c]) s)"

text \<open>The scan of \<open>BAD_KEY.sub\<close> finds a match somewhere in the text.\<close>

fun has_bad_key :: "bool \<Rightarrow> ustr \<Rightarrow> bool" where
  "has_bad_key bol [] = False"
| "has_bad_key bol (c # cs) =
     (if bol \<and> match_bad_key (c # cs) \<noteq> None then True else has_bad_key (c = 10) cs)"

lemma replace_escaped_backticks:
  "py_replace [92, 96] [] s = drop_escaped_backticks s"
proof (induction s rule: drop_escaped_backticks.induct)
  case (1 a b cs)
  then show ?case by (subst py_replace.simps) auto
qed (simp_all add: py_replace.simps)

lemma fix_key_spec:
  "fix_key indent inner = indent @ [34] @ escape_quotes (drop_escaped_backticks inner) @ [34, 58]"
  by (simp add: fix_key_def replace_escaped_backticks py_replace_single escape_quotes_def u_def)

lemma lazy_star_first:
  assumes "10 \<notin> set inner" "\<not> sublist [96, 125, 58] (inner @ [96, 125])"
  shows "lazy_star [96, 125, 58] (inner @ [96, 125, 58] @ rest) = Some (inner, rest)"
  using assms
proof (induction inner)
  case Nil
  show ?case by simp
next
  case (Cons c inner)
  have np: "\<not> prefix [96, 125, 58] (c # inner @ [96, 125])"
    using Cons.prems(2) by (auto simp: sublist_Cons_right)
  have "\<not> prefix [96, 125, 58] (c # inner @ [96, 125, 58] @ rest)"
  proof (cases inner)
    case Nil
    then show ?thesis by auto
  next
    case (Cons x xs)
    show ?thesis
    proof (cases xs)
      case Nil
      then show ?thesis using Cons by auto
    next
      case (Cons y ys)
      then show ?thesis using np \<open>inner = x # xs\<close> by auto
    qed
  qed
  moreover have "lazy_star [96, 125, 58] (inner @ [96, 125, 58] @ rest) = Some (inner, rest)"
    using Cons by (auto simp: sublist_Cons_right)
  ultimately show ?case using Cons.prems(1) by simp
qed

lemma match_bad_key_at:
  assumes "indent \<noteq> []" "list_all is_space indent" "10 \<notin> set inner"
    "\<not> sublist [96, 125, 58] (inner @ [96, 125])"
  shows "match_bad_key (indent @ [123, 96] @ inner @ [96, 125, 58] @ rest) = Some (indent, inner, rest)"
proof -
  have n: "\<not> is_space 123" by (simp add: is_space_def)
  have t: "takeWhile is_space (indent @ [123, 96] @ inner @ [96, 125, 58] @ rest) = indent"
    using assms(2) n by (simp add: list_all_iff takeWhile_append2)
  have d: "dropWhile is_space (indent @ [123, 96] @ inner @ [96, 125, 58] @ rest) =
           [123, 96] @ inner @ [96, 125, 58] @ rest"
    using assms(2) n by (simp add: list_all_iff dropWhile_append2)
  show ?thesis
    unfolding match_bad_key_def Let_def t d
    using assms(1) lazy_star_first[OF assms(3,4), of rest] by simp
qed

lemma bad_key_sub_no_match: "\<not> has_bad_key bol s \<Longrightarrow> bad_key_sub bol s = s"
proof (induction bol s rule: has_bad_key.induct)
  case (1 bol)
  show ?case by (simp add: bad_key_sub.simps)
next
  case (2 bol c cs)
  show ?case
  proof (cases "bol \<and> match_bad_key (c # cs) \<noteq> None")
    case True
    have "has_bad_key bol (c # cs) = True"
      by (subst has_bad_key.simps) (rule if_P, rule True)
    then show ?thesis using "2.prems" by blast
  next
    case False
    then have m: "(if bol then match_bad_key (c # cs) else None) = None"
      by (cases bol; cases "match_bad_key (c # cs)") simp_all
    have "has_bad_key bol (c # cs) = has_bad_key (c = 10) cs"
      by (subst has_bad_key.simps) (rule if_not_P, rule False)
    then have "\<not> has_bad_key (c = 10) cs" using "2.prems" by blast
    then have "bad_key_sub (c = 10) cs = cs" using "2.IH" False by blast
    then show ?thesis by (subst bad_key_sub.simps) (simp add: m)
  qed
qed

lemma bad_key_sub_match:
  assumes "match_bad_key s = Some (indent, inner, r)"
  shows "bad_key_sub True s = fix_key indent inner @ bad_key_sub False r"
proof -
  have "s \<noteq> []" using match_bad_key_length[OF assms] by auto
  then show ?thesis by (subst bad_key_sub.simps) (simp add: assms)
qed

text \<open>
  Claim C9.  The replacement of a match is the indentation, then, between double quotes, the
  captured text with every escaped backtick removed and every double quote backslash-escaped,
  then the colon.  Where whitespace at the start of a line is followed by brace, backtick, a
  text on one line, backtick, brace and colon (the first such closing), the scan writes that
  replacement and goes on after the colon; where no match starts, it copies the character.
  A file without the marker brace-backtick is skipped; a file is written only with the
  substituted text, only when that differs from the text read and a match was found;
  without a match it is not written.
\<close>

theorem key_normalizer:
  "fix_key indent inner = indent @ [34] @ escape_quotes (drop_escaped_backticks inner) @ [34, 58] \<and>
   (indent \<noteq> [] \<and> list_all is_space indent \<and> 10 \<notin> set inner \<and>
    \<not> sublist [96, 125, 58] (inner @ [96, 125]) \<longrightarrow>
      bad_key_sub True (indent @ [123, 96] @ inner @ [96, 125, 58] @ rest) =
        fix_key indent inner @ bad_key_sub False rest) \<and>
   (\<not> (bol \<and> match_bad_key (c # cs) \<noteq> None) \<longrightarrow>
      bad_key_sub bol (c # cs) = c # bad_key_sub (c = 10) cs) \<and>
   (\<not> sublist [123, 96] (read_text file) \<longrightarrow> fix_keys_file file = None) \<and>
   (\<forall>new_text. fix_keys_file file = Some new_text \<longrightarrow>
      new_text = bad_key_sub True (read_text file) \<and> new_text \<noteq> read_text file \<and>
      has_bad_key True (read_text file)) \<and>
   (\<not> has_bad_key True (read_text file) \<longrightarrow> fix_keys_file file = None)"
proof -
  have a: "indent \<noteq> [] \<and> list_all is_space indent \<and> 10 \<notin> set inner \<and>
    \<not> sublist [96, 125, 58] (inner @ [96, 125]) \<longrightarrow>
      bad_key_sub True (indent @ [123, 96] @ inner @ [96, 125, 58] @ rest) =
        fix_key indent inner @ bad_key_sub False rest"
  proof
    assume h: "indent \<noteq> [] \<and> list_all is_space indent \<and> 10 \<notin> set inner \<and>
      \<not> sublist [96, 125, 58] (inner @ [96, 125])"
    then have m: "match_bad_key (indent @ [123, 96] @ inner @ [96, 125, 58] @ rest) =
        Some (indent, inner, rest)"
      by (intro match_bad_key_at) auto
    show "bad_key_sub True (indent @ [123, 96] @ inner @ [96, 125, 58] @ rest) =
        fix_key indent inner @ bad_key_sub False rest"
      by (rule bad_key_sub_match[OF m])
  qed
  have b: "\<not> (bol \<and> match_bad_key (c # cs) \<noteq> None) \<longrightarrow>
      bad_key_sub bol (c # cs) = c # bad_key_sub (c = 10) cs"
  proof
    assume "\<not> (bol \<and> match_bad_key (c # cs) \<noteq> None)"
    then have "(if bol then match_bad_key (c # cs) else None) = None"
      by (cases bol; cases "match_bad_key (c # cs)") simp_all
    then show "bad_key_sub bol (c # cs) = c # bad_key_sub (c = 10) cs"
      by (subst bad_key_sub.simps) simp
  qed
  have c: "\<not> sublist [123, 96] (read_text file) \<longrightarrow> fix_keys_file file = None"
    by (simp add: fix_keys_file_def py_in_def)
  have d: "\<forall>new_text. fix_keys_file file = Some new_text \<longrightarrow>
      new_text = bad_key_sub True (read_text file) \<and> new_text \<noteq> read_text file \<and>
      has_bad_key True (read_text file)"
    using bad_key_sub_no_match[of True "read_text file"]
    by (auto simp: fix_keys_file_def Let_def split: if_splits)
  have e: "\<not> has_bad_key True (read_text file) \<longrightarrow> fix_keys_file file = None"
    using bad_key_sub_no_match[of True "read_text file"]
    by (auto simp: fix_keys_file_def Let_def)
  show ?thesis using fix_key_spec a b c d e by (intro conjI)
qed


theorem key_normalizer_witness:
  "fix_keys_file (u ''  {'' @ [96, 92, 96] @ u ''exec'' @ [92, 96] @ u '' (buffered)'' @ [96] @ u ''}: {'') =
     Some (u ''  '' @ [34] @ u ''exec (buffered)'' @ [34] @ u '': {'') \<and>
   has_bad_key True (read_text (u ''  {'' @ [96, 92, 96] @ u ''exec'' @ [92, 96] @ u '' (buffered)'' @ [96] @ u ''}: {'')) \<and>
   bad_key_sub False (u '' {'') = u '' {'' \<and>
   fix_keys_file (u ''no keys here'') = None \<and>
   fix_keys_file (u ''x = {'' @ [96] @ u ''a'' @ [96] @ u ''}:'') = None"
proof -
  let ?indent = "u ''  ''"
  let ?inner = "[92, 96] @ u ''exec'' @ [92, 96] @ u '' (buffered)''"
  let ?rest = "u '' {''"
  let ?ex = "u ''  {'' @ [96, 92, 96] @ u ''exec'' @ [92, 96] @ u '' (buffered)'' @ [96] @ u ''}: {''"
  let ?no = "u ''x = {'' @ [96] @ u ''a'' @ [96] @ u ''}:''"
  have ex: "?ex = ?indent @ [123, 96] @ ?inner @ [96, 125, 58] @ ?rest" by (simp add: u_def)
  have rd: "read_text ?ex = ?ex" "read_text (u ''no keys here'') = u ''no keys here''"
    "read_text ?no = ?no"
    by (simp_all add: u_def)
  have h: "?indent \<noteq> [] \<and> list_all is_space ?indent \<and> 10 \<notin> set ?inner \<and>
    \<not> sublist [96, 125, 58] (?inner @ [96, 125])"
    by (simp add: u_def is_space_def sublist_Cons_right)
  have r: "bad_key_sub False ?rest = ?rest"
    using key_normalizer[of "[]" "[]" "[]" False 32 "u ''{''" "[]", THEN conjunct2, THEN conjunct2,
        THEN conjunct1]
      key_normalizer[of "[]" "[]" "[]" False 123 "[]" "[]", THEN conjunct2, THEN conjunct2,
        THEN conjunct1]
    by (simp add: u_def bad_key_sub.simps[of _ "[]"])
  have f: "fix_key ?indent ?inner = u ''  '' @ [34] @ u ''exec (buffered)'' @ [34] @ u '':''"
    using key_normalizer[of ?indent ?inner "[]" False 0 "[]" "[]", THEN conjunct1]
    by (simp add: u_def escape_quotes_def)
  have s: "bad_key_sub True ?ex = u ''  '' @ [34] @ u ''exec (buffered)'' @ [34] @ u '': {''"
    using key_normalizer[of ?indent ?inner ?rest False 0 "[]" "[]", THEN conjunct2, THEN conjunct1,
        THEN mp, OF h]
    unfolding ex[symmetric] r f by (simp add: u_def)
  have mk: "py_in [123, 96] ?ex"
    unfolding py_in_def ex by (simp add: u_def sublist_Cons_right)
  have ne: "u ''  '' @ [34] @ u ''exec (buffered)'' @ [34] @ u '': {'' \<noteq> ?ex"
    by (simp add: u_def)
  have 1: "fix_keys_file ?ex = Some (u ''  '' @ [34] @ u ''exec (buffered)'' @ [34] @ u '': {'')"
    unfolding fix_keys_file_def Let_def rd s using mk ne by simp
  have 2: "has_bad_key True (read_text ?ex)"
    using key_normalizer[of "[]" "[]" "[]" False 0 "[]" ?ex, THEN conjunct2, THEN conjunct2,
        THEN conjunct2, THEN conjunct2, THEN conjunct1] 1
    by blast
  have nm: "\<not> sublist [123, 96] (read_text (u ''no keys here''))"
    unfolding rd by (simp add: u_def sublist_Cons_right)
  have 3: "fix_keys_file (u ''no keys here'') = None"
    using key_normalizer[of "[]" "[]" "[]" False 0 "[]" "u ''no keys here''", THEN conjunct2,
        THEN conjunct2, THEN conjunct2, THEN conjunct1] nm
    by blast
  have nb: "\<not> has_bad_key True (read_text ?no)"
    unfolding rd by (simp add: u_def match_bad_key_def is_space_def)
  have 4: "fix_keys_file ?no = None"
    using key_normalizer[of "[]" "[]" "[]" False 0 "[]" ?no, THEN conjunct2,
        THEN conjunct2, THEN conjunct2, THEN conjunct2, THEN conjunct2] nb
    by blast
  show ?thesis using 1 2 r 3 4 by (intro conjI)
qed



section \<open>Properties of the document rewriter\<close>

text \<open>
  The two loops of \<open>find_table_blocks\<close> and the backwards loop of \<open>convert_file\<close>, read
  forwards.  \<open>blocks_fwd P xs\<close> lists the maximal runs of elements with \<open>P\<close>; \<open>rewrite\<close>
  replaces every run of table rows that parses to at least one data row by its fragment,
  and \<open>any_convertible\<close> says that there is such a run.
\<close>

definition shift :: "nat \<Rightarrow> nat \<times> nat \<Rightarrow> nat \<times> nat" where
  "shift k b = (fst b + k, snd b + k)"

function blocks_fwd :: "('a \<Rightarrow> bool) \<Rightarrow> 'a list \<Rightarrow> (nat \<times> nat) list" where
  "blocks_fwd P [] = []"
| "blocks_fwd P (x # xs) =
     (if P x then
        (0, Suc (length (takeWhile P xs))) #
        map (shift (Suc (length (takeWhile P xs)))) (blocks_fwd P (dropWhile P xs))
      else map (shift 1) (blocks_fwd P xs))"
  by pat_completeness auto
termination
  by (relation "measure (\<lambda>(P, xs). length xs)") (auto simp: length_dropWhile_le less_Suc_eq_le)

definition row_line :: "ustr \<Rightarrow> bool" where
  "row_line l = startswith (py_rstrip_chars [10] l) [124]"

definition convertible :: "ustr list \<Rightarrow> bool" where
  "convertible blk =
     (case parse_table (map (py_rstrip_chars [10]) blk) of
        None \<Rightarrow> False | Some (headers, rows) \<Rightarrow> rows \<noteq> [])"

definition render :: "(ustr \<Rightarrow> ustr) \<Rightarrow> ustr list \<Rightarrow> ustr list" where
  "render lower blk =
     (case parse_table (map (py_rstrip_chars [10]) blk) of
        None \<Rightarrow> blk
      | Some (headers, rows) \<Rightarrow>
          if rows = [] then blk else [table_to_type_table lower headers rows @ [10]])"

function rewrite :: "(ustr \<Rightarrow> ustr) \<Rightarrow> ustr list \<Rightarrow> ustr list" where
  "rewrite lower [] = []"
| "rewrite lower (x # xs) =
     (if row_line x then
        render lower (x # takeWhile row_line xs) @ rewrite lower (dropWhile row_line xs)
      else x # rewrite lower xs)"
  by pat_completeness auto
termination
  by (relation "measure (\<lambda>(lower, xs). length xs)") (auto simp: length_dropWhile_le less_Suc_eq_le)

function any_convertible :: "ustr list \<Rightarrow> bool" where
  "any_convertible [] = False"
| "any_convertible (x # xs) =
     (if row_line x then
        convertible (x # takeWhile row_line xs) \<or> any_convertible (dropWhile row_line xs)
      else any_convertible xs)"
  by pat_completeness auto
termination
  by (relation "measure length") (auto simp: length_dropWhile_le less_Suc_eq_le)

lemma skip_rows_eq:
  "i \<le> length ls \<Longrightarrow>
   skip_rows ls i = i + length (takeWhile (\<lambda>l. startswith l [124]) (drop i ls))"
proof (induction ls i rule: skip_rows.induct)
  case (1 lines i)
  show ?case
  proof (cases "i < length lines \<and> startswith (lines ! i) [124]")
    case True
    then have d: "drop i lines = lines ! i # drop (Suc i) lines"
      by (simp add: Cons_nth_drop_Suc)
    have "skip_rows lines i = skip_rows lines (Suc i)"
      using True by (subst skip_rows.simps) simp
    also have "\<dots> = Suc i + length (takeWhile (\<lambda>l. startswith l [124]) (drop (Suc i) lines))"
      using 1 True by simp
    finally show ?thesis using True by (simp add: d)
  next
    case False
    have s: "skip_rows lines i = i" using False by (subst skip_rows.simps) auto
    show ?thesis
    proof (cases "i < length lines")
      case True
      then have d: "drop i lines = lines ! i # drop (Suc i) lines"
        by (simp add: Cons_nth_drop_Suc)
      show ?thesis using False True by (simp add: s d)
    next
      case False
      then show ?thesis using "1.prems" s by simp
    qed
  qed
qed

lemma shift_shift: "map (shift a) (map (shift b) xs) = map (shift (b + a)) xs"
  by (simp add: shift_def add.assoc)

lemma find_blocks_from_eq:
  "i \<le> length ls \<Longrightarrow>
   find_blocks_from ls i acc =
     acc @ map (shift i) (blocks_fwd (\<lambda>l. startswith l [124]) (drop i ls))"
proof (induction ls i acc rule: find_blocks_from.induct)
  case (1 lines i blocks)
  let ?P = "\<lambda>l. startswith l [124]"
  show ?case
  proof (cases "i < length lines")
    case False
    then show ?thesis using 1 by (subst find_blocks_from.simps) simp
  next
    case True
    then have d: "drop i lines = lines ! i # drop (Suc i) lines"
      by (simp add: Cons_nth_drop_Suc)
    show ?thesis
    proof (cases "?P (lines ! i)")
      case False
      have "find_blocks_from lines i blocks = find_blocks_from lines (i + 1) blocks"
        using True False by (subst find_blocks_from.simps) simp
      also have "\<dots> = blocks @ map (shift (i + 1)) (blocks_fwd ?P (drop (i + 1) lines))"
        using 1(2)[OF True False] True by simp
      finally show ?thesis using False by (simp add: d shift_def)
    next
      case P: True
      define n where "n = Suc (length (takeWhile ?P (drop (Suc i) lines)))"
      have j: "skip_rows lines i = i + n"
        using skip_rows_eq[of i lines] True P by (simp add: d n_def)
      have jl: "i + n \<le> length lines"
        using skip_rows_bounds[of i lines] True j by simp
      have dj: "drop (i + n) lines = dropWhile ?P (drop (Suc i) lines)"
      proof -
        have "drop (i + n) lines = drop (length (takeWhile ?P (drop (Suc i) lines))) (drop (Suc i) lines)"
          by (simp add: add.commute n_def)
        then show ?thesis by (simp add: dropWhile_eq_drop)
      qed
      have b: "blocks_fwd ?P (drop i lines) = (0, n) # map (shift n) (blocks_fwd ?P (drop (i + n) lines))"
      proof -
        have "blocks_fwd ?P (lines ! i # drop (Suc i) lines) =
              (0, n) # map (shift n) (blocks_fwd ?P (dropWhile ?P (drop (Suc i) lines)))"
          using P by (simp add: n_def)
        then show ?thesis by (simp only: d dj)
      qed
      have "find_blocks_from lines i blocks = find_blocks_from lines (i + n) (blocks @ [(i, i + n)])"
        using True P j by (subst find_blocks_from.simps) (simp add: Let_def)
      also have "\<dots> = (blocks @ [(i, i + n)]) @ map (shift (i + n)) (blocks_fwd ?P (drop (i + n) lines))"
        using 1(1)[OF True P refl, of "skip_rows lines i"] j jl by simp
      also have "\<dots> = blocks @ map (shift i) (blocks_fwd ?P (drop i lines))"
        unfolding b by (simp add: shift_shift add.commute) (simp add: shift_def)
      finally show ?thesis .
    qed
  qed
qed

lemma find_table_blocks_fwd:
  "find_table_blocks ls = blocks_fwd (\<lambda>l. startswith l [124]) ls"
proof -
  have "map (shift 0) xs = xs" for xs by (induction xs) (simp_all add: shift_def)
  then show ?thesis by (simp add: find_table_blocks_def find_blocks_from_eq)
qed


lemma blocks_fwd_map: "blocks_fwd P (map f xs) = blocks_fwd (\<lambda>x. P (f x)) xs"
proof (induction "\<lambda>x. P (f x)" xs rule: blocks_fwd.induct)
  case 1
  show ?case by simp
next
  case (2 x xs)
  have t: "takeWhile P (map f xs) = map f (takeWhile (\<lambda>x. P (f x)) xs)"
    by (simp add: takeWhile_map comp_def)
  have d: "dropWhile P (map f xs) = map f (dropWhile (\<lambda>x. P (f x)) xs)"
    by (simp add: dropWhile_map comp_def)
  show ?case using 2 by (simp add: t d)
qed

lemma find_table_blocks_rows:
  "find_table_blocks (map (py_rstrip_chars [10]) ls) = blocks_fwd row_line ls"
proof -
  have "(\<lambda>x. startswith (py_rstrip_chars [10] x) [124]) = row_line"
    by (rule ext) (simp add: row_line_def)
  then show ?thesis by (simp add: find_table_blocks_fwd blocks_fwd_map)
qed

lemma replace_block_at:
  assumes "length pre = k" "length blk = n"
  shows "replace_block lower (k, k + n) (pre @ blk @ post, m) =
         (pre @ render lower blk @ post, m \<or> convertible blk)"
proof -
  have s: "drop k (take (k + n) (pre @ blk @ post)) = blk" using assms by simp
  have t: "take k (pre @ blk @ post) = pre" using assms by simp
  have d: "drop (k + n) (pre @ blk @ post) = post" using assms by simp
  show ?thesis
    unfolding replace_block_def prod.case Let_def s t d
    by (auto simp: render_def convertible_def split: option.splits)
qed

lemma replace_blocks_fwd:
  "fold (replace_block lower) (rev (map (shift (length pre)) (blocks_fwd row_line ls))) (pre @ ls, m) =
   (pre @ rewrite lower ls, m \<or> any_convertible ls)"
proof (induction lower ls arbitrary: pre rule: rewrite.induct)
  case (1 lower)
  show ?case by simp
next
  case (2 lower x xs)
  show ?case
  proof (cases "row_line x")
    case False
    have bb: "blocks_fwd row_line (x # xs) = map (shift 1) (blocks_fwd row_line xs)"
      using False by simp
    have e: "map (shift (length pre)) (blocks_fwd row_line (x # xs)) =
          map (shift (length (pre @ [x]))) (blocks_fwd row_line xs)"
      unfolding bb shift_shift by simp
    have r: "rewrite lower (x # xs) = x # rewrite lower xs"
      "any_convertible (x # xs) = any_convertible xs"
      using False by simp_all
    show ?thesis unfolding e r using 2(2)[OF False, of "pre @ [x]"] by simp
  next
    case True
    define tw where "tw = takeWhile row_line xs"
    define rest where "rest = dropWhile row_line xs"
    define n where "n = Suc (length tw)"
    have xs: "xs = tw @ rest" by (simp add: tw_def rest_def)
    have bb: "blocks_fwd row_line (x # xs) = (0, n) # map (shift n) (blocks_fwd row_line rest)"
      using True by (simp add: tw_def rest_def n_def)
    have b: "map (shift (length pre)) (blocks_fwd row_line (x # xs)) =
        (length pre, length pre + n) #
        map (shift (length (pre @ x # tw))) (blocks_fwd row_line rest)"
      unfolding bb list.map shift_shift by (simp add: shift_def n_def)
    have ih: "fold (replace_block lower)
          (rev (map (shift (length (pre @ x # tw))) (blocks_fwd row_line rest)))
          ((pre @ x # tw) @ rest, m) =
        ((pre @ x # tw) @ rewrite lower rest, m \<or> any_convertible rest)"
      using 2(1)[OF True, of "pre @ x # tw"] by (simp add: tw_def rest_def)
    have "fold (replace_block lower) (rev (map (shift (length pre)) (blocks_fwd row_line (x # xs))))
            (pre @ x # xs, m) =
          replace_block lower (length pre, length pre + n)
            (pre @ (x # tw) @ rewrite lower rest, m \<or> any_convertible rest)"
      unfolding b using ih by (simp add: xs)
    also have "\<dots> = (pre @ render lower (x # tw) @ rewrite lower rest,
                      (m \<or> any_convertible rest) \<or> convertible (x # tw))"
      by (rule replace_block_at) (simp_all add: n_def)
    finally show ?thesis using True by (simp add: tw_def rest_def disj_ac)
  qed
qed

lemma no_blocks_not_convertible:
  "blocks_fwd row_line ls = [] \<Longrightarrow> \<not> any_convertible ls"
  by (induction ls rule: any_convertible.induct) (auto split: if_splits)

text \<open>\<open>convert_file\<close> without the indices.\<close>

lemma convert_file_fwd:
  "convert_file lower file =
     (let content = read_text file; lines = splitlines content
      in if \<not> any_convertible lines then (False, file)
         else (True, concat (if \<not> py_in (py_strip IMPORT_LINE) content
                             then add_import (rewrite lower lines) else rewrite lower lines)))"
proof -
  have f: "fold (replace_block lower) (rev (blocks_fwd row_line ls)) (ls, False) =
           (rewrite lower ls, any_convertible ls)" for ls
  proof -
    have "map (shift 0) xs = xs" for xs by (induction xs) (simp_all add: shift_def)
    then show ?thesis using replace_blocks_fwd[of lower "[]" ls False] by simp
  qed
  show ?thesis
    unfolding convert_file_def Let_def find_table_blocks_rows f
    using no_blocks_not_convertible[of "splitlines (read_text file)"]
    by auto
qed



text \<open>The two tests that make \<open>add_import\<close> insert after a line.\<close>

definition imports_fumadocs :: "ustr \<Rightarrow> bool" where
  "imports_fumadocs line \<longleftrightarrow>
     startswith (py_strip line) (u ''import '') \<and> py_in (u ''fumadocs'') line"

definition is_fence :: "ustr \<Rightarrow> bool" where
  "is_fence line \<longleftrightarrow> py_strip line = u ''---''"

lemma pipe_survives_strip:
  assumes "l \<noteq> []" "hd l = 124"
  shows "py_strip l \<noteq> [] \<and> hd (py_strip l) = 124"
proof -
  have "startswith l [124]" using assms by (cases l) (simp_all add: startswith_def)
  then have "startswith (py_strip l) [124]" by (rule strip_keeps_pipe)
  then show ?thesis by (cases "py_strip l") (simp_all add: startswith_def)
qed

lemma strip_nonempty: "py_strip l \<noteq> [] \<Longrightarrow> l \<noteq> []"
  by (auto simp: py_strip_def strip_by_def rstrip_by_def lstrip_by_def)

lemma trigger_not_row:
  assumes "imports_fumadocs c \<or> is_fence c"
  shows "c \<noteq> [] \<and> hd c \<noteq> 124"
proof -
  have s: "py_strip c \<noteq> [] \<and> hd (py_strip c) \<noteq> 124"
    using assms by (auto simp: imports_fumadocs_def is_fence_def startswith_def u_def prefix_def)
  then have "c \<noteq> []" using strip_nonempty by blast
  moreover have "hd c \<noteq> 124" using s pipe_survives_strip[of c] \<open>c \<noteq> []\<close> by blast
  ultimately show ?thesis by simp
qed

lemma after_import_inserted:
  "fold after_import_step xs (acc, True) = (acc @ xs, True)"
  by (induction xs arbitrary: acc) (simp_all add: after_import_step_def Let_def)

lemma after_import_shape:
  "fold after_import_step xs (acc, False) = (acc @ xs, False) \<or>
   (\<exists>A c B. xs = A @ c # B \<and> imports_fumadocs c \<and>
      fold after_import_step xs (acc, False) = (acc @ A @ c # IMPORT_LINE # B, True))"
proof (induction xs arbitrary: acc)
  case Nil
  show ?case by simp
next
  case (Cons x xs)
  show ?case
  proof (cases "imports_fumadocs x")
    case True
    then have "fold after_import_step (x # xs) (acc, False) = (acc @ [] @ x # IMPORT_LINE # xs, True)"
      by (simp add: after_import_step_def imports_fumadocs_def after_import_inserted Let_def)
    then show ?thesis using True by blast
  next
    case False
    then have s: "fold after_import_step (x # xs) (acc, False) =
        fold after_import_step xs (acc @ [x], False)"
      by (auto simp: after_import_step_def imports_fumadocs_def Let_def)
    from Cons[of "acc @ [x]"] show ?thesis
    proof
      assume "fold after_import_step xs (acc @ [x], False) = ((acc @ [x]) @ xs, False)"
      then show ?thesis using s by simp
    next
      assume "\<exists>A c B. xs = A @ c # B \<and> imports_fumadocs c \<and>
        fold after_import_step xs (acc @ [x], False) = ((acc @ [x]) @ A @ c # IMPORT_LINE # B, True)"
      then obtain A c B where "xs = A @ c # B" "imports_fumadocs c"
        "fold after_import_step xs (acc @ [x], False) = ((acc @ [x]) @ A @ c # IMPORT_LINE # B, True)"
        by blast
      then have "x # xs = (x # A) @ c # B \<and> imports_fumadocs c \<and>
        fold after_import_step (x # xs) (acc, False) = (acc @ (x # A) @ c # IMPORT_LINE # B, True)"
        using s by simp
      then show ?thesis by blast
    qed
  qed
qed

lemma after_frontmatter_shape:
  "fst (fold after_frontmatter_step xs (acc, i, cl)) = acc @ xs \<or>
   (\<exists>A c B. xs = A @ c # B \<and> is_fence c \<and>
      fst (fold after_frontmatter_step xs (acc, i, cl)) = acc @ A @ c # [10] # IMPORT_LINE # B)"
proof (induction xs arbitrary: acc i cl)
  case Nil
  show ?case by simp
next
  case (Cons x xs)
  show ?case
  proof (cases "is_fence x \<and> i \<and> \<not> cl")
    case True
    then have s: "fold after_frontmatter_step (x # xs) (acc, i, cl) =
        fold after_frontmatter_step xs (acc @ [x, [10], IMPORT_LINE], i, True)"
      by (simp add: after_frontmatter_step_def is_fence_def Let_def)
    have c: "fst (fold after_frontmatter_step ys (acc', i', True)) = acc' @ ys" for ys acc' i'
      by (induction ys arbitrary: acc' i') (simp_all add: after_frontmatter_step_def Let_def)
    have "fst (fold after_frontmatter_step (x # xs) (acc, i, cl)) =
          acc @ [] @ x # [10] # IMPORT_LINE # xs"
      unfolding s c by simp
    then show ?thesis using True by blast
  next
    case False
    define i' where "i' = (is_fence x \<or> i)"
    have s: "fold after_frontmatter_step (x # xs) (acc, i, cl) =
        fold after_frontmatter_step xs (acc @ [x], i', cl)"
      using False by (cases i; cases cl; cases "is_fence x")
        (simp_all add: after_frontmatter_step_def is_fence_def Let_def i'_def)
    from Cons[of "acc @ [x]" i' cl] show ?thesis
    proof
      assume "fst (fold after_frontmatter_step xs (acc @ [x], i', cl)) = (acc @ [x]) @ xs"
      then show ?thesis using s by simp
    next
      assume "\<exists>A c B. xs = A @ c # B \<and> is_fence c \<and>
        fst (fold after_frontmatter_step xs (acc @ [x], i', cl)) =
          (acc @ [x]) @ A @ c # [10] # IMPORT_LINE # B"
      then obtain A c B where "xs = A @ c # B" "is_fence c"
        "fst (fold after_frontmatter_step xs (acc @ [x], i', cl)) =
          (acc @ [x]) @ A @ c # [10] # IMPORT_LINE # B"
        by blast
      then have "x # xs = (x # A) @ c # B \<and> is_fence c \<and>
        fst (fold after_frontmatter_step (x # xs) (acc, i, cl)) =
          acc @ (x # A) @ c # [10] # IMPORT_LINE # B"
        using s by simp
      then show ?thesis by blast
    qed
  qed
qed

lemma add_import_shape:
  "add_import cs = cs \<or>
   (\<exists>A c B X. cs = A @ c # B \<and> add_import cs = A @ c # X @ B \<and> c \<noteq> [] \<and> hd c \<noteq> 124 \<and>
      (X = [IMPORT_LINE] \<or> X = [[10], IMPORT_LINE]))"
proof -
  from after_import_shape[of cs "[]"] show ?thesis
  proof
    assume a: "fold after_import_step cs ([], False) = ([] @ cs, False)"
    then have e: "add_import cs = fst (fold after_frontmatter_step cs ([], False, False))"
      by (simp add: add_import_def)
    from after_frontmatter_shape[of cs "[]" False False] show ?thesis
    proof
      assume "fst (fold after_frontmatter_step cs ([], False, False)) = [] @ cs"
      then show ?thesis using e by simp
    next
      assume "\<exists>A c B. cs = A @ c # B \<and> is_fence c \<and>
        fst (fold after_frontmatter_step cs ([], False, False)) = [] @ A @ c # [10] # IMPORT_LINE # B"
      then obtain A c B where h: "cs = A @ c # B" "is_fence c"
        "fst (fold after_frontmatter_step cs ([], False, False)) = [] @ A @ c # [10] # IMPORT_LINE # B"
        by blast
      have "cs = A @ c # B \<and> add_import cs = A @ c # [[10], IMPORT_LINE] @ B \<and> c \<noteq> [] \<and> hd c \<noteq> 124"
        using h e trigger_not_row[of c] by simp
      then show ?thesis by blast
    qed
  next
    assume "\<exists>A c B. cs = A @ c # B \<and> imports_fumadocs c \<and>
      fold after_import_step cs ([], False) = ([] @ A @ c # IMPORT_LINE # B, True)"
    then obtain A c B where h: "cs = A @ c # B" "imports_fumadocs c"
      "fold after_import_step cs ([], False) = ([] @ A @ c # IMPORT_LINE # B, True)"
      by blast
    have "cs = A @ c # B \<and> add_import cs = A @ c # [IMPORT_LINE] @ B \<and> c \<noteq> [] \<and> hd c \<noteq> 124"
      using h trigger_not_row[of c] by (simp add: add_import_def)
    then show ?thesis by blast
  qed
qed


lemma insert_keeps_run:
  assumes "A @ c # B = A0 @ blk @ B0" "c \<notin> set blk"
  shows "\<exists>A' B'. A @ c # X @ B = A' @ blk @ B'"
proof -
  from assms(1) consider us where "A = A0 @ us" "us @ c # B = blk @ B0"
    | us where "A @ us = A0" "c # B = us @ blk @ B0"
    by (auto simp: append_eq_append_conv2)
  then show ?thesis
  proof cases
    case 2
    show ?thesis
    proof (cases us)
      case Nil
      then have "blk = []" using 2 assms(2) by (cases blk) auto
      then have "A @ c # X @ B = (A @ c # X @ B) @ blk @ []" by simp
      then show ?thesis by blast
    next
      case (Cons v vs)
      then have "A @ c # X @ B = (A @ c # X @ vs) @ blk @ B0" using 2 by simp
      then show ?thesis by blast
    qed
  next
    case 1
    from 1(2) consider vs where "us = blk @ vs" "vs @ c # B = B0"
      | vs where "us @ vs = blk" "c # B = vs @ B0"
      by (auto simp: append_eq_append_conv2)
    then show ?thesis
    proof cases
      case 1
      then have "A @ c # X @ B = A0 @ blk @ (vs @ c # X @ B)" using \<open>A = A0 @ us\<close> by simp
      then show ?thesis by blast
    next
      case 2
      then have "vs = []" using assms(2) by (cases vs) auto
      then have "A @ c # X @ B = A0 @ blk @ (c # X @ B)" using 2 \<open>A = A0 @ us\<close> by simp
      then show ?thesis by blast
    qed
  qed
qed

lemma row_line_hd: "row_line l \<longleftrightarrow> l \<noteq> [] \<and> hd l = 124"
proof (cases l)
  case Nil
  then show ?thesis by (simp add: row_line_def py_rstrip_chars_def rstrip_by_def startswith_def)
next
  case (Cons c cs)
  have "rev (c # cs) = rev cs @ [c]" by simp
  show ?thesis
  proof (cases "c = 10")
    case True
    have "py_rstrip_chars [10] l = [] \<or> hd (py_rstrip_chars [10] l) = 10"
      using Cons True
      by (cases "dropWhile (\<lambda>c. c = 10) (rev cs)")
         (simp_all add: py_rstrip_chars_def rstrip_by_def dropWhile_append hd_append)
    then show ?thesis using Cons True
      by (cases "py_rstrip_chars [10] l") (auto simp: row_line_def startswith_def)
  next
    case False
    then have "py_rstrip_chars [10] l = c # rev (dropWhile (\<lambda>c. c = 10) (rev cs))"
      using Cons by (simp add: py_rstrip_chars_def rstrip_by_def dropWhile_append)
    then show ?thesis using Cons by (simp add: row_line_def startswith_def)
  qed
qed

lemma add_import_keeps_rows:
  assumes "\<forall>l \<in> set blk. row_line l"
  shows "\<exists>A' B'. add_import (A0 @ blk @ B0) = A' @ blk @ B'"
proof -
  from add_import_shape[of "A0 @ blk @ B0"] show ?thesis
  proof
    assume "add_import (A0 @ blk @ B0) = A0 @ blk @ B0"
    then show ?thesis by blast
  next
    assume "\<exists>A c B X. A0 @ blk @ B0 = A @ c # B \<and> add_import (A0 @ blk @ B0) = A @ c # X @ B \<and>
      c \<noteq> [] \<and> hd c \<noteq> 124 \<and> (X = [IMPORT_LINE] \<or> X = [[10], IMPORT_LINE])"
    then obtain A c B X where h: "A @ c # B = A0 @ blk @ B0"
      "add_import (A0 @ blk @ B0) = A @ c # X @ B" "hd c \<noteq> 124"
      by metis
    have "c \<notin> set blk" using assms h(3) by (auto simp: row_line_hd)
    from insert_keeps_run[OF h(1) this, of X] show ?thesis using h(2) by simp
  qed
qed

lemma any_convertible_blocks:
  "any_convertible ls \<longleftrightarrow>
     (\<exists>b \<in> set (blocks_fwd row_line ls). convertible (drop (fst b) (take (snd b) ls)))"
proof (induction ls rule: any_convertible.induct)
  case 1
  show ?case by simp
next
  case (2 x xs)
  show ?case
  proof (cases "row_line x")
    case False
    then show ?thesis using 2(2) by (simp add: shift_def)
  next
    case True
    define tw where "tw = takeWhile row_line xs"
    define rest where "rest = dropWhile row_line xs"
    have xs: "xs = tw @ rest" by (simp add: tw_def rest_def)
    have sl: "drop (fst b + Suc (length tw)) (take (snd b + Suc (length tw)) (x # xs)) =
        drop (fst b) (take (snd b) rest)" for b
      by (simp add: xs)
    have "any_convertible (x # xs) \<longleftrightarrow> convertible (x # tw) \<or> any_convertible rest"
      using True by (simp add: tw_def rest_def)
    also have "\<dots> \<longleftrightarrow> convertible (x # tw) \<or>
        (\<exists>b \<in> set (blocks_fwd row_line rest). convertible (drop (fst b) (take (snd b) rest)))"
      using 2(1)[OF True] by (simp add: rest_def)
    also have "\<dots> \<longleftrightarrow> (\<exists>b \<in> set (blocks_fwd row_line (x # xs)).
        convertible (drop (fst b) (take (snd b) (x # xs))))"
      using True sl by (simp add: tw_def[symmetric] rest_def[symmetric] shift_def) (simp add: xs)
    finally show ?thesis .
  qed
qed

lemma rewrite_block:
  "b \<in> set (blocks_fwd row_line ls) \<Longrightarrow>
   (\<exists>A B. rewrite lower ls = A @ render lower (drop (fst b) (take (snd b) ls)) @ B) \<and>
   (\<forall>l \<in> set (drop (fst b) (take (snd b) ls)). row_line l)"
proof (induction lower ls arbitrary: b rule: rewrite.induct)
  case (1 lower)
  then show ?case by simp
next
  case (2 lower x xs)
  show ?case
  proof (cases "row_line x")
    case False
    then obtain b' where b': "b' \<in> set (blocks_fwd row_line xs)" "b = shift 1 b'"
      using 2(3) by auto
    have sl: "drop (fst b) (take (snd b) (x # xs)) = drop (fst b') (take (snd b') xs)"
      using b'(2) by (simp add: shift_def)
    from 2(2)[OF False b'(1)] obtain A B where
      "rewrite lower xs = A @ render lower (drop (fst b') (take (snd b') xs)) @ B"
      and r: "\<forall>l \<in> set (drop (fst b') (take (snd b') xs)). row_line l"
      by blast
    then have "rewrite lower (x # xs) = (x # A) @ render lower (drop (fst b) (take (snd b) (x # xs))) @ B"
      using False sl by simp
    then show ?thesis using r sl by metis
  next
    case True
    define tw where "tw = takeWhile row_line xs"
    define rest where "rest = dropWhile row_line xs"
    have xs: "xs = tw @ rest" by (simp add: tw_def rest_def)
    have rw: "rewrite lower (x # xs) = render lower (x # tw) @ rewrite lower rest"
      using True by (simp add: tw_def rest_def)
    have bs: "blocks_fwd row_line (x # xs) =
        (0, Suc (length tw)) # map (shift (Suc (length tw))) (blocks_fwd row_line rest)"
      using True by (simp add: tw_def rest_def)
    have tw_rows: "\<forall>l \<in> set (x # tw). row_line l"
      using True by (auto simp: tw_def dest: set_takeWhileD)
    from 2(3) bs consider "b = (0, Suc (length tw))"
      | b' where "b' \<in> set (blocks_fwd row_line rest)" "b = shift (Suc (length tw)) b'"
      by auto
    then show ?thesis
    proof cases
      case 1
      then have sl: "drop (fst b) (take (snd b) (x # xs)) = x # tw" by (simp add: xs)
      have "rewrite lower (x # xs) = [] @ render lower (x # tw) @ rewrite lower rest"
        using rw by simp
      then show ?thesis unfolding sl using tw_rows by blast
    next
      case 2
      have sl: "drop (fst b) (take (snd b) (x # xs)) = drop (fst b') (take (snd b') rest)"
        using 2(2) by (simp add: shift_def xs)
      from "2.IH"(1)[OF True, of b'] 2(1) obtain A B where
        "rewrite lower rest = A @ render lower (drop (fst b') (take (snd b') rest)) @ B"
        and r: "\<forall>l \<in> set (drop (fst b') (take (snd b') rest)). row_line l"
        unfolding rest_def by blast
      then have "rewrite lower (x # xs) =
          (render lower (x # tw) @ A) @ render lower (drop (fst b) (take (snd b) (x # xs))) @ B"
        using rw sl by simp
      then show ?thesis using r sl by metis
    qed
  qed
qed


text \<open>
  Claim C8.  A block that fails to parse, or parses to no data row, stands in the written
  text with its lines as they were read; when every block is such a block, nothing is
  written and \<open>convert_file\<close> returns \<open>False\<close>; and whenever it returns \<open>False\<close> the file is
  what it was.
\<close>

theorem unconverted_blocks_kept:
  "(\<forall>b \<in> set (find_table_blocks (map (py_rstrip_chars [10]) (splitlines (read_text file)))).
      \<not> convertible (drop (fst b) (take (snd b) (splitlines (read_text file)))) \<longrightarrow>
      fst (convert_file lower file) \<longrightarrow>
      (\<exists>A B. snd (convert_file lower file) =
         concat (A @ drop (fst b) (take (snd b) (splitlines (read_text file))) @ B))) \<and>
   ((\<forall>b \<in> set (find_table_blocks (map (py_rstrip_chars [10]) (splitlines (read_text file)))).
      \<not> convertible (drop (fst b) (take (snd b) (splitlines (read_text file))))) \<longrightarrow>
    convert_file lower file = (False, file)) \<and>
   (\<not> fst (convert_file lower file) \<longrightarrow> snd (convert_file lower file) = file)"
proof (intro conjI ballI impI)
  fix b
  let ?ls = "splitlines (read_text file)"
  let ?blk = "drop (fst b) (take (snd b) ?ls)"
  assume b: "b \<in> set (find_table_blocks (map (py_rstrip_chars [10]) ?ls))"
    and n: "\<not> convertible ?blk" and m: "fst (convert_file lower file)"
  from b have b': "b \<in> set (blocks_fwd row_line ?ls)" by (simp add: find_table_blocks_rows)
  from rewrite_block[OF b', of lower] obtain A B where
    rw: "rewrite lower ?ls = A @ render lower ?blk @ B" and rows: "\<forall>l \<in> set ?blk. row_line l"
    by blast
  have "render lower ?blk = ?blk"
    using n by (auto simp: render_def convertible_def split: option.splits)
  then have rw': "rewrite lower ?ls = A @ ?blk @ B" using rw by simp
  from add_import_keeps_rows[OF rows, of A B] obtain A' B' where
    ai: "add_import (rewrite lower ?ls) = A' @ ?blk @ B'"
    unfolding rw' by blast
  have "snd (convert_file lower file) = concat (rewrite lower ?ls) \<or>
        snd (convert_file lower file) = concat (add_import (rewrite lower ?ls))"
    using m by (auto simp: convert_file_fwd Let_def split: if_splits)
  then show "\<exists>A B. snd (convert_file lower file) = concat (A @ ?blk @ B)"
    using rw' ai by metis
next
  let ?ls = "splitlines (read_text file)"
  assume "\<forall>b \<in> set (find_table_blocks (map (py_rstrip_chars [10]) ?ls)).
      \<not> convertible (drop (fst b) (take (snd b) ?ls))"
  then have "\<not> any_convertible ?ls"
    by (simp add: any_convertible_blocks find_table_blocks_rows)
  then show "convert_file lower file = (False, file)"
    by (simp add: convert_file_fwd Let_def)
next
  assume "\<not> fst (convert_file lower file)"
  then show "snd (convert_file lower file) = file"
    by (auto simp: convert_file_fwd Let_def split: if_splits)
qed

text \<open>The definitions that evaluate the line operations on a literal.\<close>

lemmas eval_lines = u_def is_linebreak_def row_line_hd shift_def

theorem unconverted_blocks_kept_witness:
  "(\<exists>A B. snd (convert_file ascii_lower
       (u ''|x'' @ [10] @ u ''t'' @ [10] @ u ''|a|'' @ [10] @ u ''|-|'' @ [10] @ u ''|b|'' @ [10])) =
       concat (A @ [u ''|x'' @ [10]] @ B)) \<and>
   convert_file ascii_lower (u ''|x'' @ [13, 10] @ u ''t'') = (False, u ''|x'' @ [13, 10] @ u ''t'') \<and>
   snd (convert_file ascii_lower (u ''|x'' @ [13, 10] @ u ''t'')) = u ''|x'' @ [13, 10] @ u ''t''"
proof -
  let ?doc = "u ''|x'' @ [10] @ u ''t'' @ [10] @ u ''|a|'' @ [10] @ u ''|-|'' @ [10] @ u ''|b|'' @ [10]"
  let ?ls = "[u ''|x'' @ [10], u ''t'' @ [10], u ''|a|'' @ [10], u ''|-|'' @ [10], u ''|b|'' @ [10]]"
  let ?tab = "[u ''|a|'' @ [10], u ''|-|'' @ [10], u ''|b|'' @ [10]]"
  let ?d2 = "u ''|x'' @ [13, 10] @ u ''t''"
  have sl: "splitlines (read_text ?doc) = ?ls" by (simp add: u_def is_linebreak_def)
  have bl: "find_table_blocks (map (py_rstrip_chars [10]) ?ls) = [(0, 1), (2, 5)]"
    unfolding find_table_blocks_rows by (simp add: eval_lines)
  have pt: "parse_table (map (py_rstrip_chars [10]) ?tab) = Some ([u ''a''], [[u ''b'']])"
    by (simp add: parse_table_def sep_line_def sep_char_def split_row_def eval_strings)
  have cv: "convertible ?tab" using pt by (simp add: convertible_def)
  have nc: "\<not> convertible [u ''|x'' @ [10]]" by (simp add: convertible_def parse_table_def)
  have ac: "any_convertible ?ls" using cv by (simp add: eval_lines)
  have m: "fst (convert_file ascii_lower ?doc)"
    unfolding convert_file_fwd Let_def sl using ac by simp
  have b: "(0, 1) \<in> set (find_table_blocks (map (py_rstrip_chars [10]) (splitlines (read_text ?doc))))"
    unfolding sl bl by simp
  have n: "\<not> convertible (drop (fst (0::nat, 1::nat)) (take (snd (0::nat, 1::nat)) (splitlines (read_text ?doc))))"
    unfolding sl using nc by simp
  have 1: "\<exists>A B. snd (convert_file ascii_lower ?doc) = concat (A @ [u ''|x'' @ [10]] @ B)"
    using unconverted_blocks_kept[of ?doc ascii_lower, THEN conjunct1, THEN bspec, OF b,
        THEN mp, OF n, THEN mp, OF m]
    unfolding sl by simp
  have sl2: "splitlines (read_text ?d2) = [u ''|x'' @ [10], u ''t'']"
    by (simp add: u_def is_linebreak_def)
  have bl2: "find_table_blocks (map (py_rstrip_chars [10]) [u ''|x'' @ [10], u ''t'']) = [(0, 1)]"
    unfolding find_table_blocks_rows by (simp add: eval_lines)
  have h2: "\<forall>b \<in> set (find_table_blocks (map (py_rstrip_chars [10]) (splitlines (read_text ?d2)))).
      \<not> convertible (drop (fst b) (take (snd b) (splitlines (read_text ?d2))))"
    unfolding sl2 bl2 using nc by simp
  have 2: "convert_file ascii_lower ?d2 = (False, ?d2)"
    by (rule unconverted_blocks_kept[of ?d2 ascii_lower, THEN conjunct2, THEN conjunct1,
          THEN mp, OF h2])
  have 3: "snd (convert_file ascii_lower ?d2) = ?d2"
    using unconverted_blocks_kept[of ?d2 ascii_lower, THEN conjunct2, THEN conjunct2] 2
    by simp
  show ?thesis using 1 2 3 by (intro conjI)
qed



lemma fragment_head:
  "table_to_type_table lower headers rows \<noteq> [] \<and> hd (table_to_type_table lower headers rows) = 60"
  by (simp add: table_to_type_table_def Let_def u_def)

lemma small_table:
  "table_to_type_table ascii_lower [u ''k'', u ''v''] [[u ''c'', u ''d'']] =
     u ''<TypeTable'' @ [10] @ u ''  type={'' @ [10] @
     u ''    '' @ [34] @ u ''c'' @ [34] @ u '': {'' @ [10] @
     u ''      description: '' @ [34] @ u ''d'' @ [34] @ u '','' @ [10] @
     u ''    },'' @ [10] @ u ''  }'' @ [10] @ u ''/>''"
proof -
  have m: "headers_to_mapping ascii_lower [u ''k'', u ''v''] = Fields [(1, Some (u ''description''))]"
    by (simp add: headers_to_mapping_def)
  have k: "to_jsx_key (py_strip (u ''c'')) = [34] @ u ''c'' @ [34]"
    unfolding to_jsx_key_def Let_def
    by (simp add: eval_strings unwrap.simps py_replace.simps lazy_plus_def)
  have j: "to_jsx_string (py_strip (u ''d'')) = [34] @ u ''d'' @ [34]"
    unfolding to_jsx_string_def Let_def
    by (simp add: eval_strings unwrap.simps py_replace_single lazy_plus_def py_in_single)
  have p: "row_props [u ''c'', u ''d''] (Fields [(1, Some (u ''description''))]) [u ''k'', u ''v''] =
      [u ''      description: '' @ to_jsx_string (py_strip (u ''d'')) @ u '','']"
    by (simp add: row_props_def field_props_def blank_value_def Let_def eval_strings)
  have r: "row_to_type_node (py_strip (u ''c'')) [u ''c'', u ''d'']
        (Fields [(1, Some (u ''description''))]) [u ''k'', u ''v''] =
      u ''    '' @ [34] @ u ''c'' @ [34] @ u '': {'' @ [10] @
      u ''      description: '' @ [34] @ u ''d'' @ [34] @ u '','' @ [10] @ u ''    },'' @ [10]"
    unfolding row_to_type_node_def Let_def k p j by simp
  have e: "table_entries [u ''k'', u ''v''] (Fields [(1, Some (u ''description''))]) [[u ''c'', u ''d'']] =
      [row_to_type_node (py_strip (u ''c'')) [u ''c'', u ''d'']
        (Fields [(1, Some (u ''description''))]) [u ''k'', u ''v'']]"
    by (simp add: table_entries_def u_def)
  show ?thesis
    unfolding table_to_type_table_def Let_def m e r by simp
qed

text \<open>
  Claim C3 at two documents without the TypeTable import.  In the first, two lines import
  from fumadocs and a table follows: the import is written after the first of the two lines,
  not after the last.  The second is a table alone, without front matter: the table is
  replaced and no import is written at all.
\<close>

theorem import_after_first_fumadocs_line:
  "convert_file ascii_lower
     (u ''import A from '' @ [39] @ u ''fumadocs-ui/a'' @ [39] @ [10] @
      u ''import B from '' @ [39] @ u ''fumadocs-ui/b'' @ [39] @ [10] @
      u ''|k|v|'' @ [10] @ u ''|-|-|'' @ [10] @ u ''|c|d|'' @ [10]) =
   (True,
      u ''import A from '' @ [39] @ u ''fumadocs-ui/a'' @ [39] @ [10] @
      IMPORT_LINE @
      u ''import B from '' @ [39] @ u ''fumadocs-ui/b'' @ [39] @ [10] @
      u ''<TypeTable'' @ [10] @ u ''  type={'' @ [10] @
      u ''    '' @ [34] @ u ''c'' @ [34] @ u '': {'' @ [10] @
      u ''      description: '' @ [34] @ u ''d'' @ [34] @ u '','' @ [10] @
      u ''    },'' @ [10] @ u ''  }'' @ [10] @ u ''/>'' @ [10]) \<and>
   convert_file ascii_lower (u ''|k|v|'' @ [10] @ u ''|-|-|'' @ [10] @ u ''|c|d|'' @ [10]) =
   (True,
      u ''<TypeTable'' @ [10] @ u ''  type={'' @ [10] @
      u ''    '' @ [34] @ u ''c'' @ [34] @ u '': {'' @ [10] @
      u ''      description: '' @ [34] @ u ''d'' @ [34] @ u '','' @ [10] @
      u ''    },'' @ [10] @ u ''  }'' @ [10] @ u ''/>'' @ [10])"
proof -
  let ?i1 = "u ''import A from '' @ [39] @ u ''fumadocs-ui/a'' @ [39] @ [10]"
  let ?i2 = "u ''import B from '' @ [39] @ u ''fumadocs-ui/b'' @ [39] @ [10]"
  let ?tab = "[u ''|k|v|'' @ [10], u ''|-|-|'' @ [10], u ''|c|d|'' @ [10]]"
  let ?jsx = "table_to_type_table ascii_lower [u ''k'', u ''v''] [[u ''c'', u ''d'']] @ [10]"
  let ?doc = "?i1 @ ?i2 @ u ''|k|v|'' @ [10] @ u ''|-|-|'' @ [10] @ u ''|c|d|'' @ [10]"
  let ?d2 = "u ''|k|v|'' @ [10] @ u ''|-|-|'' @ [10] @ u ''|c|d|'' @ [10]"
  have rd: "read_text ?doc = ?doc" "read_text ?d2 = ?d2" by (simp_all add: u_def)
  have sl: "splitlines ?doc = ?i1 # ?i2 # ?tab" "splitlines ?d2 = ?tab"
    by (simp_all add: u_def is_linebreak_def)
  have pt: "parse_table (map (py_rstrip_chars [10]) ?tab) =
      Some ([u ''k'', u ''v''], [[u ''c'', u ''d'']])"
    by (simp add: parse_table_def sep_line_def sep_char_def split_row_def eval_strings)
  have rn: "render ascii_lower ?tab = [?jsx]" "convertible ?tab"
    using pt by (simp_all add: render_def convertible_def)
  have nr: "\<not> row_line ?i1" "\<not> row_line ?i2" "row_line (u ''|k|v|'' @ [10])"
    "row_line (u ''|-|-|'' @ [10])" "row_line (u ''|c|d|'' @ [10])"
    by (simp_all add: row_line_hd u_def)
  have rw: "rewrite ascii_lower (?i1 # ?i2 # ?tab) = [?i1, ?i2, ?jsx]"
    "rewrite ascii_lower ?tab = [?jsx]"
    using nr rn by simp_all
  have ac: "any_convertible (?i1 # ?i2 # ?tab)" "any_convertible ?tab"
    using nr rn by simp_all
  have imp: "py_strip IMPORT_LINE = u ''import { TypeTable } from '' @ [39] @
      u ''fumadocs-ui/components/type-table'' @ [39] @ u '';''"
    by (simp add: IMPORT_LINE_def eval_strings)
  have hi: "\<not> py_in (py_strip IMPORT_LINE) ?doc" "\<not> py_in (py_strip IMPORT_LINE) ?d2"
    unfolding imp py_in_def by (simp_all add: u_def sublist_Cons_right)
  have t1: "startswith (py_strip ?i1) (u ''import '') \<and> py_in (u ''fumadocs'') ?i1"
    unfolding py_in_def by (simp add: eval_strings sublist_Cons_right)
  have jx: "hd ?jsx = 60" "?jsx \<noteq> []" "\<not> is_space 60"
    using fragment_head[of ascii_lower "[u ''k'', u ''v'']" "[[u ''c'', u ''d'']]"]
    by (simp_all add: is_space_def)
  have sj: "py_strip ?jsx \<noteq> [] \<and> hd (py_strip ?jsx) = 60"
  proof -
    obtain r where j: "?jsx = 60 # r" using jx by (cases ?jsx) auto
    have "py_strip (60 # r) = 60 # rev (dropWhile is_space (rev r))"
      using jx(3) by (simp add: py_strip_def strip_by_def lstrip_by_def rstrip_by_def dropWhile_append)
    then show ?thesis unfolding j by simp
  qed
  have tj: "\<not> startswith (py_strip ?jsx) (u ''import '')" "py_strip ?jsx \<noteq> u ''---''"
    using sj by (auto simp: startswith_def u_def prefix_def)
  have a1: "add_import [?i1, ?i2, ?jsx] = [?i1, IMPORT_LINE, ?i2, ?jsx]"
    using t1 by (simp add: add_import_def after_import_step_def Let_def after_import_inserted)
  have a2: "add_import [?jsx] = [?jsx]"
    using tj by (simp add: add_import_def after_import_step_def after_frontmatter_step_def Let_def)
  have 1: "convert_file ascii_lower ?doc = (True, ?i1 @ IMPORT_LINE @ ?i2 @ ?jsx)"
    unfolding convert_file_fwd Let_def rd sl rw a1 using ac hi by simp
  have 2: "convert_file ascii_lower ?d2 = (True, ?jsx)"
    unfolding convert_file_fwd Let_def rd sl rw a2 using ac hi by simp
  show ?thesis using 1 2 unfolding small_table by simp
qed



section \<open>The characters of a generated fragment\<close>

text \<open>
  Every character of a fragment comes from a cell of the table or from the fixed text of
  the renderer.
\<close>

definition fixed_chars :: "nat set" where
  "fixed_chars = set (u ''<TypeTable type={}/>:,description default &quot;'') \<union>
                 {10, 34, 36, 92, 96, 183}"

lemma set_dropWhile_subset: "set (dropWhile P xs) \<subseteq> set xs"
  by (auto dest: set_dropWhileD)

lemma set_strip_by: "set (strip_by P s) \<subseteq> set s"
  using set_dropWhile_subset[of P "rev (dropWhile P s)"] set_dropWhile_subset[of P s]
  by (auto simp: strip_by_def rstrip_by_def lstrip_by_def)

lemma set_py_strip: "set (py_strip s) \<subseteq> set s"
  unfolding py_strip_def by (rule set_strip_by)

lemma set_py_strip_chars: "set (py_strip_chars cs s) \<subseteq> set s"
  unfolding py_strip_chars_def by (rule set_strip_by)

lemma set_py_rstrip_chars: "set (py_rstrip_chars cs s) \<subseteq> set s"
  using set_dropWhile_subset[of "\<lambda>c. c \<in> set cs" "rev s"]
  by (auto simp: py_rstrip_chars_def rstrip_by_def)

lemma py_split_nonempty: "py_split d s \<noteq> []"
  by (induction s) (auto split: list.splits)

lemma set_py_split: "x \<in> set (py_split d s) \<Longrightarrow> set x \<subseteq> set s \<and> d \<notin> set x"
proof (induction s arbitrary: x)
  case Nil
  then show ?case by simp
next
  case (Cons c s)
  show ?case
  proof (cases "c = d")
    case True
    then show ?thesis using Cons by auto
  next
    case False
    obtain y ys where p: "py_split d s = y # ys"
      using py_split_nonempty[of d s] by (cases "py_split d s") auto
    then have "x = c # y \<or> x \<in> set ys" using Cons.prems False by simp
    then show ?thesis using Cons.IH[of y] Cons.IH[of x] p False by auto
  qed
qed

lemma set_split_row: "x \<in> set (split_row l) \<Longrightarrow> set x \<subseteq> set l \<and> 124 \<notin> set x"
proof -
  assume "x \<in> set (split_row l)"
  then obtain y where y: "y \<in> set (py_split 124 (py_strip_chars [124] (py_strip l)))"
    and x: "x = py_strip y"
    by (auto simp: split_row_def)
  have "set y \<subseteq> set l" "124 \<notin> set y"
    using set_py_split[OF y] set_py_strip_chars[of "[124]" "py_strip l"] set_py_strip[of l]
    by auto
  then show ?thesis using x set_py_strip[of y] by auto
qed

lemma parse_table_cells:
  assumes "parse_table ls = Some (headers, rows)"
  shows "(\<forall>h \<in> set headers. set h \<subseteq> \<Union> (set ` set ls) \<and> 124 \<notin> set h) \<and>
         (\<forall>r \<in> set rows. \<forall>x \<in> set r. set x \<subseteq> \<Union> (set ` set ls) \<and> 124 \<notin> set x)"
proof -
  from assms have l: "3 \<le> length ls" and h: "headers = split_row (ls ! 0)"
    and r: "rows = map split_row (filter (\<lambda>l. startswith (py_strip l) [124]) (drop 2 ls))"
    by (auto simp: parse_table_def split: if_splits)
  have 0: "ls ! 0 \<in> set ls" using l by (cases ls) simp_all
  have "\<forall>h \<in> set headers. set h \<subseteq> \<Union> (set ` set ls) \<and> 124 \<notin> set h"
    using set_split_row[of _ "ls ! 0"] 0 unfolding h by blast
  moreover have "\<forall>r \<in> set rows. \<forall>x \<in> set r. set x \<subseteq> \<Union> (set ` set ls) \<and> 124 \<notin> set x"
  proof (intro ballI)
    fix r x assume "r \<in> set rows" "x \<in> set r"
    then obtain l where "l \<in> set ls" "x \<in> set (split_row l)"
      unfolding r by (auto dest: in_set_dropD)
    then show "set x \<subseteq> \<Union> (set ` set ls) \<and> 124 \<notin> set x"
      using set_split_row[of x l] by blast
  qed
  ultimately show ?thesis by simp
qed

lemma set_lazy_star: "lazy_star d s = Some (g, r) \<Longrightarrow> set g \<union> set r \<subseteq> set s"
proof (induction s arbitrary: g r)
  case Nil
  then show ?case by (auto split: if_splits)
next
  case (Cons c s)
  show ?case
  proof (cases "prefix d (c # s)")
    case True
    then show ?thesis using Cons.prems by (auto dest: in_set_dropD)
  next
    case False
    then obtain g' where "lazy_star d s = Some (g', r)" "g = c # g'"
      using Cons.prems by (auto split: if_splits option.splits)
    then show ?thesis using Cons.IH[of g' r] by auto
  qed
qed

lemma set_lazy_plus: "lazy_plus d s = Some (g, r) \<Longrightarrow> set g \<union> set r \<subseteq> set s"
  by (auto simp: lazy_plus_def split: list.splits if_splits option.splits dest!: set_lazy_star)

lemma set_unwrap: "set (unwrap d s) \<subseteq> set s"
proof (induction d s rule: unwrap.induct)
  case (1 d s)
  show ?case
  proof (cases "s = []")
    case True
    then show ?thesis by (simp add: unwrap.simps)
  next
    case ne: False
    show ?thesis
    proof (cases "prefix d s")
      case False
      then have "unwrap d s = hd s # unwrap d (tl s)" using ne by (subst unwrap.simps) simp
      then show ?thesis using 1(3)[OF ne False] ne by (cases s) auto
    next
      case True
      show ?thesis
      proof (cases "lazy_plus d (drop (length d) s)")
        case None
        then have "unwrap d s = hd s # unwrap d (tl s)" using ne True by (subst unwrap.simps) simp
        then show ?thesis using 1(1)[OF ne True None] ne by (cases s) auto
      next
        case (Some p)
        obtain g r where p: "p = (g, r)" by (cases p)
        have "unwrap d s = g @ unwrap d r" using ne True Some p by (subst unwrap.simps) simp
        moreover have "set g \<union> set r \<subseteq> set s"
          using set_lazy_plus[of d "drop (length d) s" g r] Some p by (auto dest: in_set_dropD)
        ultimately show ?thesis using 1(2)[OF ne True Some p[symmetric]] by auto
      qed
    qed
  qed
qed

lemma set_py_replace_single: "set (py_replace [c] new s) \<subseteq> set s \<union> set new"
  by (auto simp: py_replace_single split: if_splits)

lemma set_to_jsx_key: "set (to_jsx_key s) \<subseteq> set s \<union> fixed_chars"
proof -
  have "set (unwrap [96] (unwrap (u ''**'') (py_strip s))) \<subseteq> set s"
    using set_unwrap[of "[96]" "unwrap (u ''**'') (py_strip s)"]
      set_unwrap[of "u ''**''" "py_strip s"] set_py_strip[of s] by blast
  then have "set (py_replace [34] [92, 34] (unwrap [96] (unwrap (u ''**'') (py_strip s)))) \<subseteq> set s \<union> {92, 34}"
    using set_py_replace_single[of 34 "[92, 34]" "unwrap [96] (unwrap (u ''**'') (py_strip s))"]
    by auto
  then show ?thesis by (auto simp: to_jsx_key_def Let_def fixed_chars_def)
qed

lemma set_to_jsx_string: "set (to_jsx_string s) \<subseteq> set s \<union> fixed_chars"
proof -
  let ?v = "unwrap (u ''**'') (py_strip s)"
  have v: "set ?v \<subseteq> set s"
    using set_unwrap[of "u ''**''" "py_strip s"] set_py_strip[of s] by blast
  have "set (escape_template ?v) \<subseteq> set s \<union> fixed_chars"
    using v by (auto simp: escape_template_def fixed_chars_def split: if_splits)
  moreover have "set (escape_quoted ?v) \<subseteq> set s \<union> fixed_chars"
    using v by (auto simp: escape_quoted_def fixed_chars_def u_def split: if_splits)
  moreover have "to_jsx_string s = [123, 96] @ escape_template ?v @ [96, 125] \<or>
                 to_jsx_string s = [34] @ escape_quoted ?v @ [34]"
    unfolding to_jsx_string_def Let_def three_replaces
    by (simp add: py_replace_single escape_quoted_def)
  moreover have "{123, 96, 125, 34} \<subseteq> fixed_chars" by (simp add: fixed_chars_def u_def)
  ultimately show ?thesis by auto
qed



lemma set_py_join: "set (py_join sep xs) \<subseteq> set sep \<union> \<Union> (set ` set xs)"
  by (induction sep xs rule: py_join.induct) auto

lemma fixed_chars_literals:
  "set (u '': '') \<subseteq> fixed_chars" "set (u '','') \<subseteq> fixed_chars"
  "set (u ''      '') \<subseteq> fixed_chars" "set (u ''    '') \<subseteq> fixed_chars"
  "set (u ''      description: '') \<subseteq> fixed_chars" "set [32, 183, 32] \<subseteq> fixed_chars"
  "set (u '': {},'') \<subseteq> fixed_chars" "set (u '': {'') \<subseteq> fixed_chars"
  "set (u ''    },'') \<subseteq> fixed_chars" "set (u ''<TypeTable'') \<subseteq> fixed_chars"
  "set (u ''  type={'') \<subseteq> fixed_chars" "set (u ''  }'') \<subseteq> fixed_chars"
  "set (u ''/>'') \<subseteq> fixed_chars" "10 \<in> fixed_chars"
  "set (u ''type'') \<subseteq> fixed_chars" "set (u ''description'') \<subseteq> fixed_chars"
  "set (u ''default'') \<subseteq> fixed_chars"
  by (simp_all add: fixed_chars_def u_def)

lemma merge_parts_chars:
  assumes "p \<in> set (merge_parts row headers cols)"
  shows "set p \<subseteq> \<Union> (set ` set row) \<union> \<Union> (set ` set headers) \<union> fixed_chars"
proof -
  from assms obtain i where i: "i < length row"
    and p: "p = py_strip (headers ! i) @ u '': '' @ py_strip (row ! i) \<and> i < length headers \<or>
            p = py_strip (row ! i)"
    by (auto simp: merge_parts_def Let_def split: if_splits)
  have r: "set (py_strip (row ! i)) \<subseteq> \<Union> (set ` set row)"
    using set_py_strip[of "row ! i"] nth_mem[OF i] by blast
  from p show ?thesis
  proof
    assume a: "p = py_strip (headers ! i) @ u '': '' @ py_strip (row ! i) \<and> i < length headers"
    then have "set (py_strip (headers ! i)) \<subseteq> \<Union> (set ` set headers)"
      using set_py_strip[of "headers ! i"] nth_mem[of i headers] by blast
    then show ?thesis using a r fixed_chars_literals(1) by auto
  next
    assume "p = py_strip (row ! i)"
    then show ?thesis using r by auto
  qed
qed

lemma field_props_chars:
  assumes "p \<in> set (field_props row fs)"
    and "\<forall>i name. (i, Some name) \<in> set fs \<longrightarrow> set name \<subseteq> fixed_chars"
  shows "set p \<subseteq> \<Union> (set ` set row) \<union> fixed_chars"
proof -
  from assms(1) obtain i name where m: "(i, Some name) \<in> set fs" and i: "i < length row"
    and p: "p = u ''      '' @ name @ u '': '' @ to_jsx_string (py_strip (row ! i)) @ u '',''"
    by (auto simp: field_props_def Let_def split: option.splits if_splits)
  have "set (to_jsx_string (py_strip (row ! i))) \<subseteq> \<Union> (set ` set row) \<union> fixed_chars"
    using set_to_jsx_string[of "py_strip (row ! i)"] set_py_strip[of "row ! i"] nth_mem[OF i]
    by blast
  moreover have "set name \<subseteq> fixed_chars" using assms(2) m by blast
  ultimately show ?thesis
    unfolding p using fixed_chars_literals(1,2,3) by auto
qed

lemma mapping_names:
  "headers_to_mapping lower headers = Fields fs \<Longrightarrow> (i, Some name) \<in> set fs \<Longrightarrow>
   set name \<subseteq> fixed_chars"
  using fixed_chars_literals(15,16,17)
  by (auto simp: headers_to_mapping_def Let_def split: if_splits)

lemma row_props_chars:
  assumes "p \<in> set (row_props row (headers_to_mapping lower headers) headers)"
  shows "set p \<subseteq> \<Union> (set ` set row) \<union> \<Union> (set ` set headers) \<union> fixed_chars"
proof (cases "headers_to_mapping lower headers")
  case (Fields fs)
  then have "p \<in> set (field_props row fs)" using assms by (simp add: row_props_def)
  then have "set p \<subseteq> \<Union> (set ` set row) \<union> fixed_chars"
    by (rule field_props_chars) (use mapping_names[OF Fields] in blast)
  then show ?thesis by auto
next
  case (Merge cols)
  define T where "T = \<Union> (set ` set row) \<union> \<Union> (set ` set headers) \<union> fixed_chars"
  define parts where "parts = merge_parts row headers cols"
  have rp: "row_props row (Merge cols) headers =
      (if parts \<noteq> [] then
         [u ''      description: '' @ to_jsx_string (py_join [32, 183, 32] parts) @ u '','']
       else [])"
    by (simp add: row_props_def Let_def parts_def)
  have p: "p = u ''      description: '' @ to_jsx_string (py_join [32, 183, 32] parts) @ u '',''"
    using assms unfolding Merge rp by (cases "parts = []") simp_all
  have a: "set q \<subseteq> T" if "q \<in> set parts" for q
    using merge_parts_chars[of q row headers cols] that unfolding T_def parts_def .
  have f: "fixed_chars \<subseteq> T" by (simp add: T_def)
  have "set (py_join [32, 183, 32] parts) \<subseteq> set [32, 183, 32] \<union> \<Union> (set ` set parts)"
    by (rule set_py_join)
  also have "\<dots> \<subseteq> T" using a f fixed_chars_literals(6) by blast
  finally have j: "set (py_join [32, 183, 32] parts) \<subseteq> T" .
  have "set (to_jsx_string (py_join [32, 183, 32] parts)) \<subseteq>
      set (py_join [32, 183, 32] parts) \<union> fixed_chars"
    by (rule set_to_jsx_string)
  also have "\<dots> \<subseteq> T" using j f by blast
  finally have "set (to_jsx_string (py_join [32, 183, 32] parts)) \<subseteq> T" .
  then have "set p \<subseteq> T"
    unfolding p using f fixed_chars_literals(2,5) by auto
  then show ?thesis unfolding T_def .
qed

lemma row_to_type_node_chars:
  "set (row_to_type_node key row m headers) \<subseteq>
     set key \<union> \<Union> (set ` set (row_props row m headers)) \<union> fixed_chars"
proof -
  have k: "set (to_jsx_key key) \<subseteq> set key \<union> fixed_chars" by (rule set_to_jsx_key)
  have j: "set (py_join [10] (row_props row m headers)) \<subseteq>
      \<Union> (set ` set (row_props row m headers)) \<union> fixed_chars"
    using set_py_join[of "[10]" "row_props row m headers"] fixed_chars_literals(14) by auto
  show ?thesis
    unfolding row_to_type_node_def Let_def
    using k j fixed_chars_literals(4,7,8,9,14) by (auto split: if_splits)
qed

lemma table_chars:
  "set (table_to_type_table lower headers rows) \<subseteq>
     \<Union> (set ` set headers) \<union> \<Union> (set ` (\<Union> (set ` set rows))) \<union> fixed_chars"
proof -
  define T where "T = \<Union> (set ` set headers) \<union> \<Union> (set ` (\<Union> (set ` set rows))) \<union> fixed_chars"
  define m where "m = headers_to_mapping lower headers"
  have f: "fixed_chars \<subseteq> T" and h: "\<Union> (set ` set headers) \<subseteq> T"
    unfolding T_def by blast+
  have rw: "\<Union> (set ` set row) \<subseteq> T" if "row \<in> set rows" for row
    using that unfolding T_def by blast
  have e: "set x \<subseteq> T" if "x \<in> set (table_entries headers m rows)" for x
  proof -
    from that obtain row where r: "row \<in> set rows" "row \<noteq> []"
      and x: "x = row_to_type_node (py_strip (row ! 0)) row m headers"
      by (auto simp: table_entries_def split: if_splits)
    have "row ! 0 \<in> set row" using r(2) by (cases row) simp_all
    then have "set (row ! 0) \<subseteq> T" using rw[OF r(1)] by blast
    then have k: "set (py_strip (row ! 0)) \<subseteq> T" using set_py_strip[of "row ! 0"] by blast
    have q: "set p \<subseteq> T" if "p \<in> set (row_props row m headers)" for p
    proof -
      have "set p \<subseteq> \<Union> (set ` set row) \<union> \<Union> (set ` set headers) \<union> fixed_chars"
        using that unfolding m_def by (rule row_props_chars)
      then show ?thesis using rw[OF r(1)] h f by blast
    qed
    have "set x \<subseteq> set (py_strip (row ! 0)) \<union> \<Union> (set ` set (row_props row m headers)) \<union> fixed_chars"
      unfolding x by (rule row_to_type_node_chars)
    also have "\<dots> \<subseteq> T" using k q f by blast
    finally show ?thesis .
  qed
  then have c: "set (concat (table_entries headers m rows)) \<subseteq> T" by auto
  have l: "set (u ''<TypeTable'') \<subseteq> T" "set (u ''  type={'') \<subseteq> T" "set (u ''  }'') \<subseteq> T"
    "set (u ''/>'') \<subseteq> T" "10 \<in> T"
    using f fixed_chars_literals(10,11,12,13,14) by blast+
  have "set (table_to_type_table lower headers rows) \<subseteq> T"
    unfolding table_to_type_table_def Let_def m_def[symmetric]
    using c l by simp
  then show ?thesis unfolding T_def .
qed

lemma fragment_clean:
  assumes "parse_table ls = Some (headers, rows)" "c \<notin> fixed_chars"
    and "c = 124 \<or> c \<notin> \<Union> (set ` set ls)"
  shows "c \<notin> set (table_to_type_table lower headers rows)"
proof -
  note pc = parse_table_cells[OF assms(1)]
  have 1: "c \<notin> set h" if "h \<in> set headers" for h
    using pc that assms(3) by blast
  have 2: "c \<notin> set x" if "r \<in> set rows" "x \<in> set r" for r x
    using pc that assms(3) by blast
  have "c \<notin> \<Union> (set ` set headers)" using 1 by blast
  moreover have "c \<notin> \<Union> (set ` (\<Union> (set ` set rows)))" using 2 by blast
  ultimately show ?thesis using table_chars[of lower headers rows] assms(2) by blast
qed



section \<open>Lines of a text without carriage returns\<close>

lemma read_text_no_cr: "13 \<notin> set (read_text s)"
  by (induction s rule: read_text.induct) (auto split: list.splits)

lemma read_text_id: "13 \<notin> set s \<Longrightarrow> read_text s = s"
  by (induction s) auto

lemma splitlines_char:
  "\<not> is_linebreak c \<Longrightarrow>
   splitlines (c # cs) = (case splitlines cs of [] \<Rightarrow> [[c]] | l # ls \<Rightarrow> (c # l) # ls)"
  by simp

lemma splitlines_break:
  "is_linebreak c \<Longrightarrow> c \<noteq> 13 \<Longrightarrow> splitlines (c # cs) = [c] # splitlines cs"
  by (cases cs) simp_all

lemma splitlines_cr:
  "splitlines (13 # cs) =
     (case cs of [] \<Rightarrow> [[13]]
      | d # ds \<Rightarrow> if d = 10 then [13, 10] # splitlines ds else [13] # splitlines cs)"
  by (cases cs) (simp_all add: is_linebreak_def)

declare splitlines.simps(2) [simp del]

lemma concat_splitlines: "concat (splitlines s) = s"
proof (induction s rule: length_induct)
  case (1 s)
  show ?case
  proof (cases s)
    case Nil
    then show ?thesis by simp
  next
    case (Cons c cs)
    have ih: "concat (splitlines cs) = cs" using 1 Cons by simp
    show ?thesis
    proof (cases "is_linebreak c")
      case False
      then show ?thesis using ih Cons
        by (cases "splitlines cs") (simp_all add: splitlines_char)
    next
      case True
      show ?thesis
      proof (cases "c = 13")
        case False
        then show ?thesis using True ih Cons by (simp add: splitlines_break)
      next
        case c: True
        show ?thesis
        proof (cases cs)
          case Nil
          then show ?thesis using Cons c by (simp add: splitlines_cr)
        next
          case (Cons d ds)
          have "concat (splitlines ds) = ds" using 1 Cons \<open>s = c # cs\<close> by simp
          then show ?thesis using Cons \<open>s = c # cs\<close> c ih by (simp add: splitlines_cr)
        qed
      qed
    qed
  qed
qed

lemma splitlines_no_cr:
  "13 \<notin> set (c # cs) \<Longrightarrow>
   splitlines (c # cs) =
     (if is_linebreak c then [c] # splitlines cs
      else (case splitlines cs of [] \<Rightarrow> [[c]] | l # ls \<Rightarrow> (c # l) # ls))"
  by (simp add: splitlines_char splitlines_break)

text \<open>A chunk that ends a line: not empty, and its last character is a line boundary.\<close>

definition terminated :: "ustr \<Rightarrow> bool" where
  "terminated c \<longleftrightarrow> c \<noteq> [] \<and> is_linebreak (last c)"

text \<open>One line as \<open>splitlines\<close> returns it: not empty, no boundary before its last
  character.\<close>

definition one_line :: "ustr \<Rightarrow> bool" where
  "one_line l \<longleftrightarrow> l \<noteq> [] \<and> (\<forall>c \<in> set (butlast l). \<not> is_linebreak c)"

lemma splitlines_eq_Nil: "splitlines s = [] \<longleftrightarrow> s = []"
proof (cases s)
  case Nil
  then show ?thesis by simp
next
  case (Cons c cs)
  show ?thesis
  proof (cases "is_linebreak c")
    case False
    then show ?thesis using Cons by (cases "splitlines cs") (simp_all add: splitlines_char)
  next
    case True
    then show ?thesis using Cons
      by (cases "c = 13"; cases cs) (simp_all add: splitlines_break splitlines_cr)
  qed
qed

lemma splitlines_terminated_append:
  assumes "terminated a" "13 \<notin> set a"
  shows "splitlines (a @ b) = splitlines a @ splitlines b"
  using assms
proof (induction a)
  case Nil
  then show ?case by (simp add: terminated_def)
next
  case (Cons c a)
  have c13: "c \<noteq> 13" using Cons.prems(2) by auto
  show ?case
  proof (cases "a = []")
    case True
    then have "is_linebreak c" using Cons.prems by (auto simp: terminated_def)
    then show ?thesis using True c13 by (simp add: splitlines_break)
  next
    case False
    then have t: "terminated a" using Cons.prems(1) by (auto simp: terminated_def)
    have ih: "splitlines (a @ b) = splitlines a @ splitlines b"
      using Cons.IH t Cons.prems(2) by simp
    have n: "splitlines a \<noteq> []" using False by (simp add: splitlines_eq_Nil)
    show ?thesis
    proof (cases "is_linebreak c")
      case True
      then show ?thesis using c13 ih by (simp add: splitlines_break)
    next
      case False
      then show ?thesis using n ih
        by (cases "splitlines a") (simp_all add: splitlines_char)
    qed
  qed
qed

lemma splitlines_concat:
  assumes "\<forall>c \<in> set (butlast cs). terminated c" "\<forall>c \<in> set cs. 13 \<notin> set c"
  shows "splitlines (concat cs) = concat (map splitlines cs)"
  using assms
proof (induction cs)
  case Nil
  show ?case by simp
next
  case (Cons c cs)
  show ?case
  proof (cases "cs = []")
    case True
    then show ?thesis by simp
  next
    case False
    then have "terminated c" "13 \<notin> set c" using Cons.prems by auto
    then have "splitlines (c @ concat cs) = splitlines c @ splitlines (concat cs)"
      by (rule splitlines_terminated_append)
    moreover have "splitlines (concat cs) = concat (map splitlines cs)"
      using Cons False by auto
    ultimately show ?thesis by simp
  qed
qed

lemma splitlines_one_line:
  assumes "one_line l" "13 \<notin> set l"
  shows "splitlines l = [l]"
  using assms
proof (induction l)
  case Nil
  then show ?case by (simp add: one_line_def)
next
  case (Cons c l)
  have c13: "c \<noteq> 13" using Cons.prems(2) by auto
  show ?case
  proof (cases "l = []")
    case True
    then show ?thesis using c13
      by (cases "is_linebreak c") (simp_all add: splitlines_break splitlines_char)
  next
    case False
    then have nb: "\<not> is_linebreak c" and o: "one_line l"
      using Cons.prems(1) by (auto simp: one_line_def)
    then have "splitlines l = [l]" using Cons by auto
    then show ?thesis using nb by (simp add: splitlines_char)
  qed
qed

lemma splitlines_prefix_line:
  assumes "\<forall>c \<in> set a. \<not> is_linebreak c" "a \<noteq> []"
  shows "splitlines (a @ b) = (case splitlines b of [] \<Rightarrow> [a] | l # ls \<Rightarrow> (a @ l) # ls)"
  using assms
proof (induction a)
  case Nil
  then show ?case by simp
next
  case (Cons c a)
  have nb: "\<not> is_linebreak c" using Cons.prems by simp
  show ?case
  proof (cases "a = []")
    case True
    then show ?thesis using nb by (cases "splitlines b") (simp_all add: splitlines_char)
  next
    case False
    then have "splitlines (a @ b) = (case splitlines b of [] \<Rightarrow> [a] | l # ls \<Rightarrow> (a @ l) # ls)"
      using Cons by auto
    then show ?thesis using nb by (cases "splitlines b") (simp_all add: splitlines_char)
  qed
qed

lemma splitlines_lines:
  assumes "13 \<notin> set s"
  shows "(\<forall>l \<in> set (splitlines s). one_line l \<and> 13 \<notin> set l) \<and>
         (\<forall>l \<in> set (butlast (splitlines s)). terminated l)"
  using assms
proof (induction s)
  case Nil
  show ?case by simp
next
  case (Cons c s)
  then have ih: "\<forall>l \<in> set (splitlines s). one_line l \<and> 13 \<notin> set l"
    "\<forall>l \<in> set (butlast (splitlines s)). terminated l"
    by auto
  have c13: "c \<noteq> 13" using Cons.prems by auto
  show ?case
  proof (cases "is_linebreak c")
    case True
    then have "splitlines (c # s) = [c] # splitlines s" using c13 by (simp add: splitlines_break)
    then show ?thesis using ih True c13 by (auto simp: one_line_def terminated_def)
  next
    case False
    show ?thesis
    proof (cases "splitlines s")
      case Nil
      then have "splitlines (c # s) = [[c]]" using False by (simp add: splitlines_char)
      then show ?thesis using c13 by (simp add: one_line_def)
    next
      case (Cons l ls)
      then have x: "splitlines (c # s) = (c # l) # ls" using False by (simp add: splitlines_char)
      have l: "one_line l" "13 \<notin> set l" using ih(1) Cons by auto
      have o: "one_line (c # l)" using l(1) False by (auto simp: one_line_def)
      have t: "ls \<noteq> [] \<longrightarrow> terminated (c # l)"
        using ih(2) Cons by (auto simp: terminated_def)
      have r: "\<forall>x \<in> set ls. one_line x \<and> 13 \<notin> set x" using ih(1) Cons by auto
      have b: "\<forall>x \<in> set (butlast ls). terminated x"
        using ih(2) Cons by (auto split: if_splits)
      show ?thesis unfolding x using o t r b l(2) c13 by auto
    qed
  qed
qed



section \<open>The second run\<close>

lemma takeWhile_stop: "\<not> P v \<Longrightarrow> takeWhile P (xs @ v # b) = takeWhile P xs"
  by (induction xs) auto

lemma dropWhile_stop: "\<not> P v \<Longrightarrow> dropWhile P (xs @ v # b) = dropWhile P xs @ v # b"
  by (induction xs) auto

lemma any_convertible_skip:
  "\<forall>l \<in> set us. \<not> row_line l \<Longrightarrow> any_convertible (us @ xs) = any_convertible xs"
  by (induction us) auto

lemma any_convertible_cut:
  "\<not> row_line v \<Longrightarrow>
   any_convertible (a @ v # b) = (any_convertible (a @ [[]]) \<or> any_convertible b)"
proof (induction a rule: any_convertible.induct)
  case 1
  have "\<not> row_line []" by (simp add: row_line_hd)
  then show ?case using 1 by simp
next
  case (2 x xs)
  have e: "\<not> row_line []" by (simp add: row_line_hd)
  show ?case
  proof (cases "row_line x")
    case False
    then show ?thesis using 2 by simp
  next
    case True
    have "any_convertible ((x # xs) @ v # b) =
        (convertible (x # takeWhile row_line xs) \<or> any_convertible (dropWhile row_line xs @ v # b))"
      using True 2(3) by (simp add: takeWhile_stop dropWhile_stop)
    moreover have "any_convertible ((x # xs) @ [[]]) =
        (convertible (x # takeWhile row_line xs) \<or> any_convertible (dropWhile row_line xs @ [[]]))"
      using True e by (simp add: takeWhile_stop dropWhile_stop)
    moreover have "any_convertible (dropWhile row_line xs @ v # b) =
        (any_convertible (dropWhile row_line xs @ [[]]) \<or> any_convertible b)"
      using 2(1)[OF True 2(3)] .
    ultimately show ?thesis by blast
  qed
qed

lemma any_convertible_quiet:
  assumes "us \<noteq> []" "\<forall>l \<in> set us. \<not> row_line l"
  shows "any_convertible (a @ us @ b) = (any_convertible (a @ [[]]) \<or> any_convertible b)"
proof -
  obtain v vs where us: "us = v # vs" using assms(1) by (cases us) auto
  have "any_convertible (a @ v # (vs @ b)) = (any_convertible (a @ [[]]) \<or> any_convertible (vs @ b))"
    using assms(2) us by (intro any_convertible_cut) simp
  moreover have "any_convertible (vs @ b) = any_convertible b"
    using assms(2) us by (intro any_convertible_skip) simp
  ultimately show ?thesis using us by simp
qed

lemma any_convertible_kept_block:
  assumes "row_line x" "\<forall>l \<in> set tw. row_line l" "\<not> convertible (x # tw)"
    and "r = [] \<or> \<not> row_line (hd r)"
  shows "any_convertible ((x # tw) @ r) = any_convertible r"
proof -
  have t: "takeWhile row_line (tw @ r) = tw \<and> dropWhile row_line (tw @ r) = r"
  proof (cases r)
    case Nil
    then show ?thesis using assms(2) by simp
  next
    case (Cons v vs)
    then have "\<not> row_line v" using assms(4) by simp
    then show ?thesis using assms(2) Cons by (simp add: takeWhile_stop dropWhile_stop)
  qed
  show ?thesis using assms(1,3) t by simp
qed

lemma quiet_lines:
  assumes "124 \<notin> set t"
  shows "\<forall>l \<in> set (splitlines t). \<not> row_line l"
proof
  fix l assume "l \<in> set (splitlines t)"
  then have "set l \<subseteq> set (concat (splitlines t))" by auto
  then have "124 \<notin> set l" using assms by (simp add: concat_splitlines) blast
  then show "\<not> row_line l" by (cases l) (auto simp: row_line_hd)
qed

lemma fixed_chars_free: "124 \<notin> fixed_chars" "13 \<notin> fixed_chars"
  by (simp_all add: fixed_chars_def u_def)

text \<open>What \<open>render\<close> returns: the block itself, or one fragment, which ends a line and has
  neither a pipe nor a carriage return.\<close>

lemma render_cases:
  assumes "\<forall>l \<in> set blk. 13 \<notin> set l"
  shows "(\<not> convertible blk \<and> render lower blk = blk) \<or>
         (convertible blk \<and> (\<exists>j. render lower blk = [j] \<and> terminated j \<and> 124 \<notin> set j \<and> 13 \<notin> set j))"
proof (cases "parse_table (map (py_rstrip_chars [10]) blk)")
  case None
  then show ?thesis by (simp add: convertible_def render_def)
next
  case (Some p)
  obtain headers rows where p: "p = (headers, rows)" by (cases p)
  show ?thesis
  proof (cases "rows = []")
    case True
    then show ?thesis using Some p by (simp add: convertible_def render_def)
  next
    case False
    let ?j = "table_to_type_table lower headers rows @ [10]"
    have pt: "parse_table (map (py_rstrip_chars [10]) blk) = Some (headers, rows)"
      using Some p by simp
    have "13 \<notin> \<Union> (set ` set (map (py_rstrip_chars [10]) blk))"
      using assms set_py_rstrip_chars by fastforce
    then have "13 \<notin> set (table_to_type_table lower headers rows)"
      using fragment_clean[OF pt fixed_chars_free(2), of lower] by blast
    moreover have "124 \<notin> set (table_to_type_table lower headers rows)"
      using fragment_clean[OF pt fixed_chars_free(1), of lower] by blast
    moreover have "terminated ?j" by (simp add: terminated_def is_linebreak_def)
    moreover have "render lower blk = [?j]" "convertible blk"
      using pt False by (simp_all add: render_def convertible_def)
    ultimately show ?thesis by auto
  qed
qed



lemma rewrite_step:
  "row_line x \<Longrightarrow>
   rewrite lower (x # xs) =
     render lower (x # takeWhile row_line xs) @ rewrite lower (dropWhile row_line xs)"
  "\<not> row_line x \<Longrightarrow> rewrite lower (x # xs) = x # rewrite lower xs"
  by simp_all

lemma rewrite_chunks:
  assumes "\<forall>l \<in> set ls. 13 \<notin> set l"
  shows "\<forall>c \<in> set (rewrite lower ls).
           13 \<notin> set c \<and> (c \<in> set ls \<or> (124 \<notin> set c \<and> terminated c))"
  using assms
proof (induction lower ls rule: rewrite.induct)
  case (1 lower)
  show ?case by simp
next
  case (2 lower x xs)
  show ?case
  proof (cases "row_line x")
    case False
    have "\<forall>c \<in> set (rewrite lower xs).
           13 \<notin> set c \<and> (c \<in> set xs \<or> (124 \<notin> set c \<and> terminated c))"
      using 2(2)[OF False] 2(3) by simp
    then show ?thesis using False 2(3) by auto
  next
    case True
    define tw where "tw = takeWhile row_line xs"
    define rest where "rest = dropWhile row_line xs"
    have xs: "xs = tw @ rest" by (simp add: tw_def rest_def)
    have rw: "rewrite lower (x # xs) = render lower (x # tw) @ rewrite lower rest"
      using True by (simp add: tw_def rest_def)
    have b13: "\<forall>l \<in> set (x # tw). 13 \<notin> set l" using 2(3) xs by auto
    have r13: "\<forall>l \<in> set rest. 13 \<notin> set l"
      using 2(3) by (auto simp: rest_def dest: set_dropWhileD)
    have ih: "\<forall>c \<in> set (rewrite lower rest).
           13 \<notin> set c \<and> (c \<in> set rest \<or> (124 \<notin> set c \<and> terminated c))"
      using 2(1)[OF True] r13 unfolding rest_def by blast
    have rn: "\<forall>c \<in> set (render lower (x # tw)).
           13 \<notin> set c \<and> (c \<in> set (x # tw) \<or> (124 \<notin> set c \<and> terminated c))"
      using render_cases[OF b13, of lower] b13 by auto
    show ?thesis
    proof
      fix c assume "c \<in> set (rewrite lower (x # xs))"
      then consider "c \<in> set (render lower (x # tw))" | "c \<in> set (rewrite lower rest)"
        unfolding rw by auto
      then show "13 \<notin> set c \<and> (c \<in> set (x # xs) \<or> (124 \<notin> set c \<and> terminated c))"
      proof cases
        case 1
        then show ?thesis using rn xs by auto
      next
        case 2
        then show ?thesis using ih xs by auto
      qed
    qed
  qed
qed

lemma butlast_subset_append: "set (butlast a) \<subseteq> set (butlast (a @ b))"
  by (cases "b = []") (auto simp: butlast_append dest: in_set_butlastD)

lemma rewrite_terminated:
  assumes "\<forall>l \<in> set ls. 13 \<notin> set l" "\<forall>l \<in> set (butlast ls). terminated l"
  shows "\<forall>c \<in> set (butlast (rewrite lower ls)). terminated c"
  using assms
proof (induction lower ls rule: rewrite.induct)
  case (1 lower)
  show ?case by simp
next
  case (2 lower x xs)
  show ?case
  proof (cases "row_line x")
    case False
    show ?thesis
    proof (cases "xs = []")
      case True
      then show ?thesis using False by simp
    next
      case ne: False
      then have "terminated x" "\<forall>l \<in> set (butlast xs). terminated l" using 2(4) by auto
      then have "\<forall>c \<in> set (butlast (rewrite lower xs)). terminated c"
        using 2(2)[OF False] 2(3) by simp
      then show ?thesis using False \<open>terminated x\<close> by auto
    qed
  next
    case True
    define tw where "tw = takeWhile row_line xs"
    define rest where "rest = dropWhile row_line xs"
    have xs: "x # xs = (x # tw) @ rest" by (simp add: tw_def rest_def)
    have rw: "rewrite lower (x # xs) = render lower (x # tw) @ rewrite lower rest"
      using True by (simp add: tw_def rest_def)
    have b13: "\<forall>l \<in> set (x # tw). 13 \<notin> set l" using 2(3) xs
      by (metis Un_iff set_append)
    have bl: "\<forall>l \<in> set (butlast (x # tw)). terminated l"
      using 2(4) butlast_subset_append[of "x # tw" rest] unfolding xs by blast
    have rb: "\<forall>c \<in> set (butlast (render lower (x # tw))). terminated c"
      using render_cases[OF b13, of lower] bl by auto
    show ?thesis
    proof (cases "rewrite lower rest = []")
      case True
      then show ?thesis unfolding rw using rb by simp
    next
      case False
      then have ne: "rest \<noteq> []" by auto
      then have all: "\<forall>l \<in> set (x # tw). terminated l"
        and br: "\<forall>l \<in> set (butlast rest). terminated l"
        using 2(4) unfolding xs by (auto simp: butlast_append)
      have r13: "\<forall>l \<in> set rest. 13 \<notin> set l" using 2(3) xs
        by (metis Un_iff set_append)
      have ih: "\<forall>c \<in> set (butlast (rewrite lower rest)). terminated c"
        using 2(1)[OF True] r13 br unfolding rest_def by simp
      have ra: "\<forall>c \<in> set (render lower (x # tw)). terminated c"
        using render_cases[OF b13, of lower] all by auto
      show ?thesis unfolding rw using False ra ih by (auto simp: butlast_append)
    qed
  qed
qed

lemma rewrite_flat_head:
  assumes "ls = [] \<or> \<not> row_line (hd ls)" "\<forall>l \<in> set ls. one_line l \<and> 13 \<notin> set l"
  shows "concat (map splitlines (rewrite lower ls)) = [] \<or>
         \<not> row_line (hd (concat (map splitlines (rewrite lower ls))))"
proof (cases ls)
  case Nil
  then show ?thesis by simp
next
  case (Cons y ys)
  then have n: "\<not> row_line y" using assms(1) by simp
  have "splitlines y = [y]" using assms(2) Cons by (intro splitlines_one_line) auto
  then show ?thesis using n Cons by simp
qed

lemma concat_single_lines:
  "\<forall>l \<in> set ls. splitlines l = [l] \<Longrightarrow> concat (map splitlines ls) = ls"
  by (induction ls) simp_all

lemma rewrite_flat_calm:
  assumes "\<forall>l \<in> set ls. one_line l \<and> 13 \<notin> set l"
  shows "\<not> any_convertible (concat (map splitlines (rewrite lower ls)))"
  using assms
proof (induction lower ls rule: rewrite.induct)
  case (1 lower)
  show ?case by simp
next
  case (2 lower x xs)
  have sx: "splitlines x = [x]" using 2(3) by (intro splitlines_one_line) auto
  show ?case
  proof (cases "row_line x")
    case False
    have "\<not> any_convertible (concat (map splitlines (rewrite lower xs)))"
      using 2(2)[OF False] 2(3) by simp
    then show ?thesis using False sx by simp
  next
    case True
    define tw where "tw = takeWhile row_line xs"
    define rest where "rest = dropWhile row_line xs"
    define R where "R = concat (map splitlines (rewrite lower rest))"
    have xs: "xs = tw @ rest" by (simp add: tw_def rest_def)
    have rw: "rewrite lower (x # xs) = render lower (x # tw) @ rewrite lower rest"
      using True by (simp add: tw_def rest_def)
    have b13: "\<forall>l \<in> set (x # tw). 13 \<notin> set l" using 2(3) xs by auto
    have rl: "\<forall>l \<in> set rest. one_line l \<and> 13 \<notin> set l" using 2(3) xs by auto
    have ih: "\<not> any_convertible R"
      using 2(1)[OF True] rl unfolding rest_def R_def by simp
    have hr: "rest = [] \<or> \<not> row_line (hd rest)"
      unfolding rest_def by (metis hd_dropWhile)
    have hR: "R = [] \<or> \<not> row_line (hd R)"
      unfolding R_def using rewrite_flat_head[OF hr rl] .
    have fl: "concat (map splitlines (rewrite lower (x # xs))) =
        concat (map splitlines (render lower (x # tw))) @ R"
      unfolding rw R_def by simp
    from render_cases[OF b13, of lower] show ?thesis
    proof
      assume k: "\<not> convertible (x # tw) \<and> render lower (x # tw) = x # tw"
      have "\<forall>l \<in> set (x # tw). splitlines l = [l]"
      proof
        fix l assume "l \<in> set (x # tw)"
        then have "one_line l \<and> 13 \<notin> set l" using 2(3) xs by auto
        then show "splitlines l = [l]" by (intro splitlines_one_line) auto
      qed
      then have "concat (map splitlines (x # tw)) = x # tw"
        by (rule concat_single_lines)
      then have "concat (map splitlines (rewrite lower (x # xs))) = (x # tw) @ R"
        unfolding fl using k by simp
      moreover have "any_convertible ((x # tw) @ R) = any_convertible R"
        using True k hR by (intro any_convertible_kept_block) (auto simp: tw_def dest: set_takeWhileD)
      ultimately show ?thesis using ih by simp
    next
      assume "convertible (x # tw) \<and>
        (\<exists>j. render lower (x # tw) = [j] \<and> terminated j \<and> 124 \<notin> set j \<and> 13 \<notin> set j)"
      then obtain j where j: "render lower (x # tw) = [j]" "124 \<notin> set j" by blast
      have "concat (map splitlines (rewrite lower (x # xs))) = splitlines j @ R"
        unfolding fl j by simp
      moreover have "any_convertible (splitlines j @ R) = any_convertible R"
        using quiet_lines[OF j(2)] by (rule any_convertible_skip)
      ultimately show ?thesis using ih by simp
    qed
  qed
qed



lemma butlast_append_subset: "set (butlast (xs @ ys)) \<subseteq> set xs \<union> set (butlast ys)"
  by (auto simp: butlast_append dest: in_set_butlastD split: if_splits)

lemma import_line_facts:
  "terminated IMPORT_LINE" "13 \<notin> set IMPORT_LINE" "124 \<notin> set IMPORT_LINE"
  "terminated [10]" "13 \<notin> set [10::nat]" "124 \<notin> set [10::nat]"
  by (simp_all add: IMPORT_LINE_def u_def terminated_def is_linebreak_def)

lemma splitlines_nonempty: "c \<noteq> [] \<Longrightarrow> splitlines c \<noteq> []"
  by (simp add: splitlines_eq_Nil)

lemma calm_after_insertion:
  assumes chunks: "\<forall>c \<in> set (A @ c # B). 13 \<notin> set c \<and> (one_line c \<or> (124 \<notin> set c \<and> terminated c))"
    and ends: "\<forall>c \<in> set (butlast (A @ c # B)). terminated c"
    and calm: "\<not> any_convertible (concat (map splitlines (A @ c # B)))"
    and c: "c \<noteq> []" "hd c \<noteq> 124"
    and X: "X = [IMPORT_LINE] \<or> X = [[10], IMPORT_LINE]"
  shows "\<not> any_convertible (splitlines (concat (A @ c # X @ B)))"
proof -
  define fA where "fA = concat (map splitlines A)"
  define fB where "fB = concat (map splitlines B)"
  define fX where "fX = concat (map splitlines X)"
  have Xf: "\<forall>x \<in> set X. terminated x \<and> 13 \<notin> set x \<and> 124 \<notin> set x" "X \<noteq> []"
    using X import_line_facts by auto
  have Xq: "\<forall>l \<in> set fX. \<not> row_line l"
    unfolding fX_def using Xf(1) quiet_lines by auto
  have c13: "13 \<notin> set c" using chunks by simp
  have cq: "\<forall>l \<in> set (splitlines c). \<not> row_line l"
  proof (cases "one_line c")
    case True
    then have "splitlines c = [c]" using c13 by (intro splitlines_one_line)
    then show ?thesis using c by (simp add: row_line_hd)
  next
    case False
    then have "124 \<notin> set c" using chunks by auto
    then show ?thesis by (rule quiet_lines)
  qed
  have cn: "splitlines c \<noteq> []" using c(1) by (rule splitlines_nonempty)
  have "concat (map splitlines (A @ c # B)) = fA @ splitlines c @ fB"
    by (simp add: fA_def fB_def)
  then have "\<not> (any_convertible (fA @ [[]]) \<or> any_convertible fB)"
    using calm any_convertible_quiet[OF cn cq, of fA fB] by simp
  then have nA: "\<not> any_convertible (fA @ [[]])" and nB: "\<not> any_convertible fB" by auto
  have A13: "\<forall>a \<in> set A. 13 \<notin> set a" and B13: "\<forall>b \<in> set B. 13 \<notin> set b"
    using chunks by auto
  have At: "\<forall>a \<in> set A. terminated a"
    using ends by (auto simp: butlast_append)
  show ?thesis
  proof (cases "terminated c")
    case True
    have Bt: "\<forall>b \<in> set (butlast B). terminated b"
      using ends by (auto simp: butlast_append split: if_splits)
    have "set (butlast (A @ c # X @ B)) \<subseteq> set (A @ c # X) \<union> set (butlast B)"
      using butlast_append_subset[of "A @ c # X" B] by simp
    then have t: "\<forall>x \<in> set (butlast (A @ c # X @ B)). terminated x"
      using At True Xf(1) Bt by auto
    have cr: "\<forall>x \<in> set (A @ c # X @ B). 13 \<notin> set x"
      using A13 c13 Xf(1) B13 by auto
    have "splitlines (concat (A @ c # X @ B)) = concat (map splitlines (A @ c # X @ B))"
      using t cr by (rule splitlines_concat)
    also have "\<dots> = fA @ (splitlines c @ fX) @ fB"
      by (simp add: fA_def fB_def fX_def)
    finally have e: "splitlines (concat (A @ c # X @ B)) = fA @ (splitlines c @ fX) @ fB" .
    have "any_convertible (fA @ (splitlines c @ fX) @ fB) =
          (any_convertible (fA @ [[]]) \<or> any_convertible fB)"
      using cn cq Xq by (intro any_convertible_quiet) auto
    then show ?thesis unfolding e using nA nB by simp
  next
    case False
    have B: "B = []"
    proof (rule ccontr)
      assume "B \<noteq> []"
      then have "c \<in> set (butlast (A @ c # B))" by (simp add: butlast_append)
      then show False using ends False by blast
    qed
    have ol: "one_line c" using chunks False by auto
    have nl: "\<forall>ch \<in> set c. \<not> is_linebreak ch"
    proof
      fix ch assume "ch \<in> set c"
      then have "ch \<in> set (butlast c) \<or> ch = last c"
        using c(1) by (metis append_butlast_last_id in_set_conv_decomp_first rotate1.simps(2)
            set_ConsD set_rotate1)
      then show "\<not> is_linebreak ch"
        using ol False c(1) by (auto simp: one_line_def terminated_def)
    qed
    define Y where "Y = c @ concat X"
    have Y13: "13 \<notin> set Y" using c13 Xf(1) by (auto simp: Y_def)
    have "concat (A @ c # X @ B) = concat (A @ [Y])" by (simp add: B Y_def)
    moreover have "splitlines (concat (A @ [Y])) = concat (map splitlines (A @ [Y]))"
      using At A13 Y13 by (intro splitlines_concat) auto
    ultimately have e: "splitlines (concat (A @ c # X @ B)) = fA @ splitlines Y @ []"
      by (simp add: fA_def)
    have X124: "124 \<notin> set (concat X)" using Xf(1) by auto
    have Yq: "\<forall>l \<in> set (splitlines Y). \<not> row_line l"
    proof (cases "splitlines (concat X)")
      case Nil
      then have "splitlines Y = [c]"
        unfolding Y_def using splitlines_prefix_line[OF nl c(1), of "concat X"] by simp
      then show ?thesis using c by (simp add: row_line_hd)
    next
      case (Cons l ls)
      then have sY: "splitlines Y = (c @ l) # ls"
        unfolding Y_def using splitlines_prefix_line[OF nl c(1), of "concat X"] by simp
      have "\<forall>l \<in> set ls. \<not> row_line l" using quiet_lines[OF X124] Cons by simp
      moreover have "\<not> row_line (c @ l)" using c by (simp add: row_line_hd)
      ultimately show ?thesis unfolding sY by simp
    qed
    have Yn: "splitlines Y \<noteq> []" using c(1) by (intro splitlines_nonempty) (simp add: Y_def)
    have "any_convertible (fA @ splitlines Y @ []) =
          (any_convertible (fA @ [[]]) \<or> any_convertible [])"
      using Yn Yq by (rule any_convertible_quiet)
    then show ?thesis unfolding e using nA by simp
  qed
qed

lemma no_cr_concat: "\<forall>c \<in> set cs. 13 \<notin> set c \<Longrightarrow> 13 \<notin> set (concat cs)"
  by auto

text \<open>Whatever \<open>convert_file\<close> writes, a second run finds nothing to convert in it.\<close>

lemma second_run_calm:
  assumes "any_convertible (splitlines (read_text file))"
  shows "\<not> any_convertible (splitlines (read_text (snd (convert_file lower file))))"
proof -
  define ls where "ls = splitlines (read_text file)"
  define cs where "cs = rewrite lower ls"
  have l1: "\<forall>l \<in> set ls. one_line l \<and> 13 \<notin> set l"
    and l2: "\<forall>l \<in> set (butlast ls). terminated l"
    using splitlines_lines[OF read_text_no_cr[of "file"]] by (simp_all add: ls_def)
  have ch0: "\<forall>c \<in> set cs. 13 \<notin> set c \<and> (c \<in> set ls \<or> (124 \<notin> set c \<and> terminated c))"
    unfolding cs_def using l1 by (intro rewrite_chunks) simp
  have ch: "\<forall>c \<in> set cs. 13 \<notin> set c \<and> (one_line c \<or> (124 \<notin> set c \<and> terminated c))"
    using ch0 l1 by blast
  have tm: "\<forall>c \<in> set (butlast cs). terminated c"
    unfolding cs_def using l1 l2 by (intro rewrite_terminated) simp_all
  have calm: "\<not> any_convertible (concat (map splitlines cs))"
    unfolding cs_def using l1 by (rule rewrite_flat_calm)
  have plain: "\<not> any_convertible (splitlines (concat cs))"
    using calm splitlines_concat[OF tm] ch by simp
  have cr: "13 \<notin> set (concat cs)" using ch by auto
  have ins: "\<not> any_convertible (splitlines (concat (add_import cs))) \<and> 13 \<notin> set (concat (add_import cs))"
  proof -
    from add_import_shape[of cs] show ?thesis
    proof
      assume "add_import cs = cs"
      then show ?thesis using plain cr by simp
    next
      assume "\<exists>A c B X. cs = A @ c # B \<and> add_import cs = A @ c # X @ B \<and> c \<noteq> [] \<and>
        hd c \<noteq> 124 \<and> (X = [IMPORT_LINE] \<or> X = [[10], IMPORT_LINE])"
      then obtain A c B X where h: "cs = A @ c # B" "add_import cs = A @ c # X @ B" "c \<noteq> []"
        "hd c \<noteq> 124" "X = [IMPORT_LINE] \<or> X = [[10], IMPORT_LINE]"
        by blast
      have 1: "\<not> any_convertible (splitlines (concat (A @ c # X @ B)))"
        using ch tm calm h(3,4,5) unfolding h(1) by (rule calm_after_insertion)
      have "\<forall>x \<in> set X. 13 \<notin> set x" using h(5) import_line_facts by auto
      then have 2: "13 \<notin> set (concat (A @ c # X @ B))" using ch unfolding h(1) by auto
      show ?thesis unfolding h(2) using 1 2 by simp
    qed
  qed
  have "snd (convert_file lower file) = concat cs \<or>
        snd (convert_file lower file) = concat (add_import cs)"
    using assms by (auto simp: convert_file_fwd Let_def cs_def ls_def)
  then show ?thesis using plain cr ins by (auto simp: read_text_id)
qed



subsection \<open>Running the converter twice\<close>

lemma blocks_fwd_none: "\<forall>x \<in> set xs. \<not> P x \<Longrightarrow> blocks_fwd P xs = []"
  by (induction xs) simp_all

text \<open>
  Claim C2.  For every file, what a run of the converter leaves is left as it is by a second
  run, which writes nothing and returns \<open>False\<close>: converting twice equals converting once.
  The fragment written for a parsed table has no line that starts with the pipe, so the
  locator finds no block in it.
\<close>

theorem convert_file_idempotent:
  "convert_file lower (snd (convert_file lower file)) = (False, snd (convert_file lower file)) \<and>
   snd (convert_file lower (snd (convert_file lower file))) = snd (convert_file lower file) \<and>
   (parse_table block = Some (headers, rows) \<longrightarrow>
      (\<forall>l \<in> set (splitlines (table_to_type_table lower headers rows @ [10])).
         \<not> startswith (py_rstrip_chars [10] l) [124]) \<and>
      find_table_blocks (map (py_rstrip_chars [10])
        (splitlines (table_to_type_table lower headers rows @ [10]))) = [])"
proof -
  have a: "convert_file lower (snd (convert_file lower file)) = (False, snd (convert_file lower file))"
  proof (cases "any_convertible (splitlines (read_text file))")
    case True
    then have "\<not> any_convertible (splitlines (read_text (snd (convert_file lower file))))"
      by (rule second_run_calm)
    then show ?thesis by (simp add: convert_file_fwd[of lower "snd (convert_file lower file)"] Let_def)
  next
    case False
    then have e: "convert_file lower file = (False, file)" by (simp add: convert_file_fwd Let_def)
    show ?thesis unfolding e by (simp add: e)
  qed
  have c: "(\<forall>l \<in> set (splitlines (table_to_type_table lower headers rows @ [10])).
         \<not> startswith (py_rstrip_chars [10] l) [124]) \<and>
      find_table_blocks (map (py_rstrip_chars [10])
        (splitlines (table_to_type_table lower headers rows @ [10]))) = []"
    if p: "parse_table block = Some (headers, rows)"
  proof -
    have "124 \<notin> set (table_to_type_table lower headers rows)"
      using fragment_clean[OF p fixed_chars_free(1), of lower] by blast
    then have "124 \<notin> set (table_to_type_table lower headers rows @ [10])" by simp
    then have q: "\<forall>l \<in> set (splitlines (table_to_type_table lower headers rows @ [10])). \<not> row_line l"
      by (rule quiet_lines)
    have r: "\<forall>l \<in> set (splitlines (table_to_type_table lower headers rows @ [10])).
         \<not> startswith (py_rstrip_chars [10] l) [124]"
      using q by (simp add: row_line_def)
    show ?thesis
      unfolding find_table_blocks_rows using blocks_fwd_none[OF q] r by simp
  qed
  show ?thesis using a c by simp
qed

lemma table_only_conversion:
  "convert_file ascii_lower (u ''|k|v|'' @ [10] @ u ''|-|-|'' @ [10] @ u ''|c|d|'' @ [10]) =
   (True, table_to_type_table ascii_lower [u ''k'', u ''v''] [[u ''c'', u ''d'']] @ [10])"
proof -
  let ?tab = "[u ''|k|v|'' @ [10], u ''|-|-|'' @ [10], u ''|c|d|'' @ [10]]"
  let ?jsx = "table_to_type_table ascii_lower [u ''k'', u ''v''] [[u ''c'', u ''d'']] @ [10]"
  let ?d2 = "u ''|k|v|'' @ [10] @ u ''|-|-|'' @ [10] @ u ''|c|d|'' @ [10]"
  have rd: "read_text ?d2 = ?d2" by (simp add: u_def)
  have sl: "splitlines ?d2 = ?tab"
    by (simp add: u_def is_linebreak_def splitlines_break splitlines_char)
  have pt: "parse_table (map (py_rstrip_chars [10]) ?tab) =
      Some ([u ''k'', u ''v''], [[u ''c'', u ''d'']])"
    by (simp add: parse_table_def sep_line_def sep_char_def split_row_def eval_strings)
  have rn: "render ascii_lower ?tab = [?jsx]" "convertible ?tab"
    using pt by (simp_all add: render_def convertible_def)
  have nr: "row_line (u ''|k|v|'' @ [10])" "row_line (u ''|-|-|'' @ [10])" "row_line (u ''|c|d|'' @ [10])"
    by (simp_all add: row_line_hd u_def)
  have rw: "rewrite ascii_lower ?tab = [?jsx]" using nr rn by simp
  have ac: "any_convertible ?tab" using nr rn by simp
  have jx: "hd ?jsx = 60" "?jsx \<noteq> []" "\<not> is_space 60"
    using fragment_head[of ascii_lower "[u ''k'', u ''v'']" "[[u ''c'', u ''d'']]"]
    by (simp_all add: is_space_def)
  have sj: "py_strip ?jsx \<noteq> [] \<and> hd (py_strip ?jsx) = 60"
  proof -
    obtain r where j: "?jsx = 60 # r" using jx by (cases ?jsx) auto
    have "py_strip (60 # r) = 60 # rev (dropWhile is_space (rev r))"
      using jx(3) by (simp add: py_strip_def strip_by_def lstrip_by_def rstrip_by_def dropWhile_append)
    then show ?thesis unfolding j by simp
  qed
  have tj: "\<not> startswith (py_strip ?jsx) (u ''import '')" "py_strip ?jsx \<noteq> u ''---''"
    using sj by (auto simp: startswith_def u_def prefix_def)
  have a2: "add_import [?jsx] = [?jsx]"
    using tj by (simp add: add_import_def after_import_step_def after_frontmatter_step_def Let_def)
  show ?thesis
    unfolding convert_file_fwd Let_def rd sl rw a2 using ac by simp
qed

theorem convert_file_idempotent_witness:
  "convert_file ascii_lower
     (u ''<TypeTable'' @ [10] @ u ''  type={'' @ [10] @
      u ''    '' @ [34] @ u ''c'' @ [34] @ u '': {'' @ [10] @
      u ''      description: '' @ [34] @ u ''d'' @ [34] @ u '','' @ [10] @
      u ''    },'' @ [10] @ u ''  }'' @ [10] @ u ''/>'' @ [10]) =
   (False,
      u ''<TypeTable'' @ [10] @ u ''  type={'' @ [10] @
      u ''    '' @ [34] @ u ''c'' @ [34] @ u '': {'' @ [10] @
      u ''      description: '' @ [34] @ u ''d'' @ [34] @ u '','' @ [10] @
      u ''    },'' @ [10] @ u ''  }'' @ [10] @ u ''/>'' @ [10]) \<and>
   find_table_blocks (map (py_rstrip_chars [10]) (splitlines
     (u ''<TypeTable'' @ [10] @ u ''  type={'' @ [10] @
      u ''    '' @ [34] @ u ''c'' @ [34] @ u '': {'' @ [10] @
      u ''      description: '' @ [34] @ u ''d'' @ [34] @ u '','' @ [10] @
      u ''    },'' @ [10] @ u ''  }'' @ [10] @ u ''/>'' @ [10]))) = []"
proof -
  let ?tab = "[u ''|k|v|'', u ''|-|-|'', u ''|c|d|'']"
  let ?d2 = "u ''|k|v|'' @ [10] @ u ''|-|-|'' @ [10] @ u ''|c|d|'' @ [10]"
  note t = convert_file_idempotent[of ascii_lower ?d2 ?tab "[u ''k'', u ''v'']" "[[u ''c'', u ''d'']]"]
  have pt: "parse_table ?tab = Some ([u ''k'', u ''v''], [[u ''c'', u ''d'']])"
    by (simp add: parse_table_def sep_line_def sep_char_def split_row_def eval_strings)
  have 1: "convert_file ascii_lower
             (table_to_type_table ascii_lower [u ''k'', u ''v''] [[u ''c'', u ''d'']] @ [10]) =
           (False, table_to_type_table ascii_lower [u ''k'', u ''v''] [[u ''c'', u ''d'']] @ [10])"
    using t[THEN conjunct1] unfolding table_only_conversion by simp
  have 2: "find_table_blocks (map (py_rstrip_chars [10]) (splitlines
             (table_to_type_table ascii_lower [u ''k'', u ''v''] [[u ''c'', u ''d'']] @ [10]))) = []"
    using t[THEN conjunct2, THEN conjunct2, THEN mp, OF pt] by simp
  show ?thesis using 1 2 unfolding small_table by simp
qed


end
